theory Spec2Isabelle
  imports Main "HOL-Library.Word"
begin

section \<open>Debouncer (debouncer.hpp)\<close>

text \<open>
  The class template \<open>Debouncer<T, timeout_ms, initial_value>\<close>. Its four data members
  are the fields of the record. The template parameters are collected in a configuration
  record, together with the width of the platform's \<open>int\<close>, which decides what the cast
  \<open>(int)(millis() - _timestamp)\<close> computes (16 on AVR boards, 32 on ARM boards);
  \<open>unsigned long\<close> is 32 bits wide on both. The member \<open>_value\<close>, read by \<open>value()\<close>, is the
  field \<open>dvalue\<close> (the name \<open>value\<close> is taken in Isabelle).
\<close>

record debouncer =
  dvalue :: bool
  holding :: bool
  heldValue :: bool
  timestamp :: "32 word"

record debouncer_config =
  timeout_ms :: int
  initial_value :: bool
  int_bits :: nat

text \<open>
  The constructor initialises \<open>_value\<close> and \<open>_holding\<close> only; the other two members keep
  whatever they held, so they are arguments here.
\<close>

definition Debouncer :: "debouncer_config \<Rightarrow> bool \<Rightarrow> 32 word \<Rightarrow> debouncer" where
  "Debouncer cfg hv ts =
     \<lparr>dvalue = initial_value cfg, holding = False, heldValue = hv, timestamp = ts\<rparr>"

text \<open>\<open>millis()\<close> at the moment \<open>t\<close> (milliseconds since start): a 32-bit counter that wraps.\<close>

definition millis :: "nat \<Rightarrow> 32 word" where
  "millis t = of_nat t"

text \<open>The conversion of an \<open>unsigned long\<close> to an \<open>int\<close> of \<open>ib\<close> bits (two's complement).\<close>

definition int_cast :: "nat \<Rightarrow> 32 word \<Rightarrow> int" where
  "int_cast ib x =
     (let m = uint x mod 2 ^ ib in if m < 2 ^ (ib - 1) then m else m - 2 ^ ib)"

definition setValue :: "bool \<Rightarrow> 32 word \<Rightarrow> debouncer \<Rightarrow> debouncer" where
  "setValue v now s =
     (if \<not> holding s \<or> v \<noteq> heldValue s
      then s\<lparr>holding := True, heldValue := v, timestamp := now\<rparr>
      else s)"

text \<open>
  \<open>check\<close> returns the new state and whether \<open>valueDidChange\<close> was called. (The source
  declares a \<open>bool\<close> result and returns none; that is not modelled.)
\<close>

definition check :: "debouncer_config \<Rightarrow> 32 word \<Rightarrow> debouncer \<Rightarrow> bool \<times> debouncer" where
  "check cfg now s =
     (if holding s \<and> int_cast (int_bits cfg) (now - timestamp s) \<ge> timeout_ms cfg
      then (let changed = (heldValue s \<noteq> dvalue s)
            in (changed, s\<lparr>holding := False, dvalue := heldValue s\<rparr>))
      else (False, s))"

text \<open>
  A run of the debouncer: calls of \<open>setValue\<close> and \<open>check\<close>, each made at a moment
  \<open>t\<close>; the second component counts the calls of \<open>valueDidChange\<close>.
\<close>

datatype event = SetValue bool nat | Check nat

fun step :: "debouncer_config \<Rightarrow> event \<Rightarrow> debouncer \<times> nat \<Rightarrow> debouncer \<times> nat" where
  "step cfg (SetValue v t) (s, n) = (setValue v (millis t) s, n)"
| "step cfg (Check t) (s, n) =
     (case check cfg (millis t) s of (c, s') \<Rightarrow> (s', if c then n + 1 else n))"

definition run :: "debouncer_config \<Rightarrow> event list \<Rightarrow> debouncer \<times> nat \<Rightarrow> debouncer \<times> nat" where
  "run cfg es sn = fold (step cfg) es sn"

text \<open>
  Vocabulary for the claims about runs. \<open>steady v\<close>: the event is a check or a sample of
  the steady raw value \<open>v\<close>. \<open>early cfg t0\<close>: a check made at or after \<open>t0\<close>, less than
  \<open>timeout_ms\<close> later.
\<close>

definition steady :: "bool \<Rightarrow> event \<Rightarrow> bool" where
  "steady v ev = (case ev of SetValue b t \<Rightarrow> b = v | Check t \<Rightarrow> True)"

definition early :: "debouncer_config \<Rightarrow> nat \<Rightarrow> event \<Rightarrow> bool" where
  "early cfg t0 ev =
     (case ev of SetValue b t \<Rightarrow> True | Check t \<Rightarrow> t0 \<le> t \<and> int (t - t0) < timeout_ms cfg)"

text \<open>
  \<open>alternating tmo prev es\<close>: in the run \<open>es\<close> time does not go backwards, each \<open>setValue\<close>
  passes the opposite of the value of the \<open>setValue\<close> before it (\<open>prev\<close> holds the moment and
  value of the latest one) and comes less than \<open>tmo\<close> milliseconds after it. Nothing bounds
  the moment of a \<open>check\<close>.
\<close>

fun alternating :: "int \<Rightarrow> (nat \<times> bool) option \<Rightarrow> event list \<Rightarrow> bool" where
  "alternating tmo prev [] = True"
| "alternating tmo prev (SetValue v t # es) =
     ((case prev of None \<Rightarrow> True
        | Some (t0, v0) \<Rightarrow> v \<noteq> v0 \<and> t0 \<le> t \<and> int (t - t0) < tmo)
      \<and> alternating tmo (Some (t, v)) es)"
| "alternating tmo prev (Check t # es) =
     ((case prev of None \<Rightarrow> True | Some (t0, v0) \<Rightarrow> t0 \<le> t) \<and> alternating tmo prev es)"

text \<open>
  \<open>rapid\<close> is \<open>alternating\<close> with one more condition: every \<open>check\<close> is made less than
  \<open>tmo\<close> milliseconds after the latest \<open>setValue\<close>, that is, while the alternation lasts.
\<close>

fun rapid :: "int \<Rightarrow> (nat \<times> bool) option \<Rightarrow> event list \<Rightarrow> bool" where
  "rapid tmo prev [] = True"
| "rapid tmo prev (SetValue v t # es) =
     ((case prev of None \<Rightarrow> True
        | Some (t0, v0) \<Rightarrow> v \<noteq> v0 \<and> t0 \<le> t \<and> int (t - t0) < tmo)
      \<and> rapid tmo (Some (t, v)) es)"
| "rapid tmo prev (Check t # es) =
     ((case prev of None \<Rightarrow> True | Some (t0, v0) \<Rightarrow> t0 \<le> t \<and> int (t - t0) < tmo)
      \<and> rapid tmo prev es)"

text \<open>What a state records about the latest \<open>setValue\<close> of a rapid run.\<close>

definition tracks :: "(nat \<times> bool) option \<Rightarrow> debouncer \<Rightarrow> bool" where
  "tracks prev s =
     (case prev of None \<Rightarrow> \<not> holding s
      | Some (t0, v0) \<Rightarrow> holding s \<and> heldValue s = v0 \<and> timestamp s = millis t0)"

text \<open>The configuration of the example: \<open>timeout_ms = 10\<close>, initial value \<open>false\<close>, 16-bit \<open>int\<close>.\<close>

definition cfg10 :: debouncer_config where
  "cfg10 = \<lparr>timeout_ms = 10, initial_value = False, int_bits = 16\<rparr>"

section \<open>Page-display driver (display8.hpp, class Display8)\<close>

text \<open>
  The three operations of the pixel output port (\<open>beginWritingPage\<close>, \<open>writePageByte\<close>,
  \<open>endWritingPage\<close>) belong to the concrete display class \<open>T\<close>; \<open>Display8\<close> only calls
  them. A run of the driver is therefore modelled by the list of port calls it makes, oldest
  first.
\<close>

datatype port_op =
    BeginWritingPage "8 word" "8 word"
  | WritePageByte "8 word"
  | EndWritingPage

type_synonym port = "port_op list"

text \<open>
  The column loop of \<open>fillPage\<close>: \<open>for (uint8_t c = start_col; c <= end_col; c++)\<close>.
  The counter is an 8-bit word, so \<open>c + 1\<close> wraps; a loop that never ends has the value
  \<open>None\<close>. \<open>data\<close> is the byte sequence behind the pointer and \<open>src\<close> the read position.
\<close>

partial_function (option) fillPage_loop ::
  "8 word \<Rightarrow> 8 word \<Rightarrow> nat \<Rightarrow> (nat \<Rightarrow> 8 word) \<Rightarrow> port \<Rightarrow> port option" where
  "fillPage_loop c end_col src data tr =
     (if c \<le> end_col
      then fillPage_loop (c + 1) end_col (src + 1) data (tr @ [WritePageByte (data src)])
      else Some tr)"

definition fillPage ::
  "8 word \<Rightarrow> 8 word \<Rightarrow> 8 word \<Rightarrow> (nat \<Rightarrow> 8 word) \<Rightarrow> port \<Rightarrow> port option" where
  "fillPage start_col end_col page data tr =
     (case fillPage_loop start_col end_col 0 data (tr @ [BeginWritingPage start_col page]) of
        None \<Rightarrow> None
      | Some tr' \<Rightarrow> Some (tr' @ [EndWritingPage]))"

partial_function (option) clearPage_loop ::
  "8 word \<Rightarrow> 8 word \<Rightarrow> 8 word \<Rightarrow> port \<Rightarrow> port option" where
  "clearPage_loop c end_col filler tr =
     (if c \<le> end_col
      then clearPage_loop (c + 1) end_col filler (tr @ [WritePageByte filler])
      else Some tr)"

definition clearPage :: "8 word \<Rightarrow> 8 word \<Rightarrow> 8 word \<Rightarrow> 8 word \<Rightarrow> port \<Rightarrow> port option" where
  "clearPage start_col end_col page filler tr =
     (case clearPage_loop start_col end_col filler (tr @ [BeginWritingPage start_col page]) of
        None \<Rightarrow> None
      | Some tr' \<Rightarrow> Some (tr' @ [EndWritingPage]))"

text \<open>The number of bytes a run sent to the port.\<close>

definition bytes_written :: "port \<Rightarrow> nat" where
  "bytes_written tr = length (filter (\<lambda>x. case x of WritePageByte b \<Rightarrow> True | _ \<Rightarrow> False) tr)"

text \<open>
  The number of bytes the claim about the two loops names: \<open>end_col - start_col + 1\<close> when
  \<open>start_col \<le> end_col\<close>, none otherwise.
\<close>

definition span :: "8 word \<Rightarrow> 8 word \<Rightarrow> nat" where
  "span start_col end_col =
     (if start_col \<le> end_col then unat end_col - unat start_col + 1 else 0)"

text \<open>One transfer: the bytes \<open>bs\<close> sent to page \<open>p\<close> from column \<open>c\<close> on.\<close>

definition block :: "8 word \<Rightarrow> 8 word \<Rightarrow> 8 word list \<Rightarrow> port" where
  "block c p bs = BeginWritingPage c p # map WritePageByte bs @ [EndWritingPage]"

section \<open>Autoscroll console (display8.hpp, class Display8Console)\<close>

text \<open>
  The display class \<open>lcd\<close> supplies the constants \<open>Cols\<close> and \<open>Pages\<close>, both \<open>uint8_t\<close>.
\<close>

record lcd =
  Cols :: "8 word"
  Pages :: "8 word"

definition MaxCols :: "lcd \<Rightarrow> 8 word" where
  "MaxCols g = Cols g div 4"

text \<open>
  \<open>Font8\<close> is declared in \<open>a21/print.hpp\<close>, which is not among the sources, so its two
  functions are parameters of the model:
  \<^item> \<open>Font8::dataForCharacter(font::data(), ch, NULL)\<close>, the pixel width of the glyph of
    \<open>ch\<close>, is a function of type \<open>glyph_width\<close>;
  \<^item> \<open>Font8::draw<T>(font, col, page, max_width, text, scale, xor_mask)\<close> is a function of
    type \<open>font_draw\<close>: from the start column, the page, the width available and the text it
    gives the width it consumed and the port calls it added.
\<close>

type_synonym glyph_width = "8 word \<Rightarrow> 8 word"

type_synonym font_draw = "8 word \<Rightarrow> 8 word \<Rightarrow> 8 word \<Rightarrow> 8 word list \<Rightarrow> port \<Rightarrow> 8 word \<times> port"

definition drawText ::
  "lcd \<Rightarrow> font_draw \<Rightarrow> 8 word \<Rightarrow> 8 word \<Rightarrow> 8 word list \<Rightarrow> port \<Rightarrow> 8 word \<times> port" where
  "drawText g fd col page text tr = fd col page (Cols g - col) text tr"

text \<open>
  The data members of the console. \<open>buffer\<close> is \<open>char _buffer[Pages][MaxCols + 1]\<close>: a list
  of \<open>Pages\<close> rows of \<open>MaxCols + 1\<close> characters each; a character is a byte.
\<close>

record console =
  buffer :: "8 word list list"
  row :: "8 word"
  col :: "8 word"
  rowWidth :: "8 word"
  filledRows :: "8 word"
  dirty :: bool

text \<open>An access outside the bounds of \<open>_buffer\<close> has no defined behaviour; it is an error value.\<close>

datatype error = OutOfBounds

text \<open>The assignment \<open>_buffer[r][c] = v\<close>.\<close>

definition store :: "lcd \<Rightarrow> 8 word \<Rightarrow> 8 word \<Rightarrow> 8 word \<Rightarrow> console \<Rightarrow> error + console" where
  "store g r c v s =
     (if r < Pages g \<and> c \<le> MaxCols g
      then Inr (s\<lparr>buffer := (buffer s)[unat r := (buffer s ! unat r)[unat c := v]]\<rparr>)
      else Inl OutOfBounds)"

text \<open>The text a \<open>char *\<close> to a row denotes: the characters before the first terminator.\<close>

definition c_str :: "8 word list \<Rightarrow> 8 word list" where
  "c_str cs = takeWhile (\<lambda>c. c \<noteq> 0) cs"

text \<open>
  The only instance is the function-local static of \<open>getSelf()\<close>. Static storage is
  zero-initialised before the constructor runs, and the constructor sets the four counters
  to 0 and leaves \<open>_buffer\<close> and \<open>_dirty\<close> alone: the buffer starts as all zeros and the
  dirty flag as false.
\<close>

definition Display8Console :: "lcd \<Rightarrow> console" where
  "Display8Console g =
     \<lparr>buffer = replicate (unat (Pages g)) (replicate (unat (MaxCols g) + 1) 0),
      row = 0, col = 0, rowWidth = 0, filledRows = 0, dirty = False\<rparr>"

definition lf :: "lcd \<Rightarrow> console \<Rightarrow> error + console" where
  "lf g s =
     (let s1 = s\<lparr>col := 0, rowWidth := 0\<rparr>;
          r1 = row s1 + 1;
          s2 = s1\<lparr>row := (if r1 \<ge> Pages g then 0 else r1)\<rparr>;
          f1 = filledRows s2 + 1;
          s3 = s2\<lparr>filledRows := (if f1 \<ge> Pages g then f1 - 1 else f1)\<rparr>
      in store g (row s3) (col s3) 0 s3)"

definition cr :: "console \<Rightarrow> console" where
  "cr s = s\<lparr>col := 0, rowWidth := 0\<rparr>"

text \<open>The loop of \<open>_clear\<close>: \<open>for (uint8_t row = 0; row < lcd::Pages; row++)\<close>.\<close>

function clear_loop :: "lcd \<Rightarrow> 8 word \<Rightarrow> console \<Rightarrow> error + console" where
  "clear_loop g r s =
     (if r < Pages g
      then (case store g r 0 0 s of Inl e \<Rightarrow> Inl e | Inr s' \<Rightarrow> clear_loop g (r + 1) s')
      else Inr s)"
  by pat_completeness auto
termination
proof (relation "measure (\<lambda>(g, r, s). unat (Pages g) - unat r)")
  show "wf (measure (\<lambda>(g, r, s). unat (Pages g) - unat r))" by simp
next
  fix g :: lcd and r :: "8 word" and s :: console and s' :: console
  assume lt: "r < Pages g"
  then have a: "unat r < unat (Pages g)" by (simp add: word_less_nat_alt)
  have "unat (Pages g) < 2 ^ LENGTH(8)" by (rule unsigned_less)
  with a have "unat r + 1 < 256" by simp
  then have "unat (r + 1) = unat r + 1" by (simp add: unat_word_ariths)
  with a show "((g, r + 1, s'), (g, r, s)) \<in> measure (\<lambda>(g, r, s). unat (Pages g) - unat r)"
    by simp
qed

definition clear :: "lcd \<Rightarrow> console \<Rightarrow> error + console" where
  "clear g s =
     (case clear_loop g 0 (s\<lparr>row := 0, filledRows := 0, col := 0, rowWidth := 0\<rparr>) of
        Inl e \<Rightarrow> Inl e
      | Inr s' \<Rightarrow> Inr (s'\<lparr>dirty := True\<rparr>))"

text \<open>
  \<open>int8_t row_index = _row - _filledRows + i; if (row_index < 0) row_index += lcd::Pages;\<close>
  The sum is computed in \<open>int\<close> and converted to 8 bits, which is the 8-bit sum; \<open>sint\<close>
  reads the result as the signed value.
\<close>

definition row_index :: "lcd \<Rightarrow> console \<Rightarrow> 8 word \<Rightarrow> 8 word" where
  "row_index g s i =
     (let ri = row s - filledRows s + i
      in if sint ri < 0 then ri + Pages g else ri)"

text \<open>
  \<open>_draw\<close> ends each row with \<open>lcd::fillPage(width, lcd::Cols - width, i)\<close>: a function of
  the display class taking three arguments. It is not among the sources (\<open>fillPage\<close> of
  \<open>Display8\<close> takes four, with no default), so it is a parameter of the model, a function of
  type \<open>page_fill\<close>: from the three arguments it gives the port calls it added, or \<open>None\<close>
  when it does not return.
\<close>

type_synonym page_fill = "8 word \<Rightarrow> 8 word \<Rightarrow> 8 word \<Rightarrow> port \<Rightarrow> port option"

text \<open>The loop of \<open>_draw\<close>: \<open>for (uint8_t i = 0; i < lcd::Pages; i++)\<close>.\<close>

function draw_loop ::
  "lcd \<Rightarrow> font_draw \<Rightarrow> page_fill \<Rightarrow> console \<Rightarrow> 8 word \<Rightarrow> port \<Rightarrow> (error + port) option"
  where
  "draw_loop g fd fill s i tr =
     (if i < Pages g
      then (let ri = row_index g s i
            in if 0 \<le> sint ri \<and> sint ri < uint (Pages g)
               then (case drawText g fd 0 i (c_str (buffer s ! nat (sint ri))) tr of
                       (width, tr1) \<Rightarrow>
                         (case fill width (Cols g - width) i tr1 of
                            None \<Rightarrow> None
                          | Some tr2 \<Rightarrow> draw_loop g fd fill s (i + 1) tr2))
               else Some (Inl OutOfBounds))
      else Some (Inr tr))"
  by pat_completeness auto
termination
proof (relation "measure (\<lambda>(g, fd, fill, s, i, tr). unat (Pages g) - unat i)")
  show "wf (measure (\<lambda>(g, fd, fill, s, i, tr). unat (Pages g) - unat i))" by simp
next
  fix g :: lcd and fd :: font_draw and fill :: page_fill and s :: console and i :: "8 word"
    and tr :: port and tr2 :: port
  assume lt: "i < Pages g"
  then have a: "unat i < unat (Pages g)" by (simp add: word_less_nat_alt)
  have "unat (Pages g) < 2 ^ LENGTH(8)" by (rule unsigned_less)
  with a have "unat i + 1 < 256" by simp
  then have "unat (i + 1) = unat i + 1" by (simp add: unat_word_ariths)
  with a show "((g, fd, fill, s, i + 1, tr2), (g, fd, fill, s, i, tr))
      \<in> measure (\<lambda>(g, fd, fill, s, i, tr). unat (Pages g) - unat i)"
    by simp
qed

definition draw ::
  "lcd \<Rightarrow> font_draw \<Rightarrow> page_fill \<Rightarrow> console \<Rightarrow> port \<Rightarrow> (error + console \<times> port) option"
  where
  "draw g fd fill s tr =
     (if \<not> dirty s then Some (Inr (s, tr))
      else (case draw_loop g fd fill (s\<lparr>dirty := False\<rparr>) 0 tr of
              None \<Rightarrow> None
            | Some (Inl e) \<Rightarrow> Some (Inl e)
            | Some (Inr tr') \<Rightarrow> Some (Inr (s\<lparr>dirty := False\<rparr>, tr'))))"

text \<open>
  The test \<open>ch >= ' '\<close> on a plain \<open>char\<close>, which is signed on AVR, the toolkit's target:
  the bytes 32 to 127 are text.
\<close>

definition printable :: "8 word \<Rightarrow> bool" where
  "printable ch = (32 \<le> sint ch)"

text \<open>\<open>_write\<close>; the name \<open>write\<close> is taken in Isabelle.\<close>

definition write_ch :: "lcd \<Rightarrow> glyph_width \<Rightarrow> 8 word \<Rightarrow> console \<Rightarrow> error + console" where
  "write_ch g fw ch s =
     (if printable ch
      then (let width = fw ch
            in case (if col s \<ge> MaxCols g \<or> unat (rowWidth s) + unat width \<ge> unat (Cols g)
                     then lf g s else Inr s) of
                 Inl e \<Rightarrow> Inl e
               | Inr s1 \<Rightarrow>
                   (case store g (row s1) (col s1) ch s1 of
                      Inl e \<Rightarrow> Inl e
                    | Inr s2 \<Rightarrow>
                        (let s3 = s2\<lparr>col := col s2 + 1\<rparr>
                         in case store g (row s3) (col s3) 0 s3 of
                              Inl e \<Rightarrow> Inl e
                            | Inr s4 \<Rightarrow>
                                Inr (s4\<lparr>rowWidth := rowWidth s4 + (width + 1),
                                        dirty := True\<rparr>))))
      else if ch = 10
        then (case lf g s of Inl e \<Rightarrow> Inl e | Inr s1 \<Rightarrow> Inr (s1\<lparr>dirty := True\<rparr>))
      else if ch = 13
        then Inr ((cr s)\<lparr>dirty := True\<rparr>)
      else Inr (s\<lparr>dirty := True\<rparr>))"

section \<open>Autoscroll console: vocabulary of the claims\<close>

text \<open>
  The geometries the console is meant for: at least one page and at least one character
  per row (\<open>MaxCols \<ge> 1\<close>), and few enough pages for the \<open>int8_t\<close> row index of \<open>_draw\<close>.
\<close>

definition valid_lcd :: "lcd \<Rightarrow> bool" where
  "valid_lcd g = (1 \<le> Pages g \<and> Pages g \<le> 128 \<and> 4 \<le> Cols g)"

text \<open>
  The invariant of the console state: the buffer has the declared shape, every row holds a
  terminator, and the counters are in range.
\<close>

definition console_inv :: "lcd \<Rightarrow> console \<Rightarrow> bool" where
  "console_inv g s =
     (length (buffer s) = unat (Pages g)
      \<and> (\<forall>r \<in> set (buffer s). length r = unat (MaxCols g) + 1 \<and> 0 \<in> set r)
      \<and> row s < Pages g
      \<and> col s \<le> MaxCols g
      \<and> row s \<le> filledRows s
      \<and> unat (filledRows s) + 1 \<le> unat (Pages g))"

text \<open>
  The words of the spec for a printable character. \<open>overflows\<close>: one more character would
  exceed \<open>MaxCols\<close> characters, or the accumulated row width with this glyph and its 1px
  gap would exceed \<open>Cols\<close> pixels. \<open>place\<close>: append the character and the terminator at the
  cursor, advance the column, add the glyph width and the gap to the row width, mark dirty.
\<close>

definition overflows :: "lcd \<Rightarrow> 8 word \<Rightarrow> console \<Rightarrow> bool" where
  "overflows g w s =
     (unat (col s) + 1 > unat (MaxCols g) \<or> unat (rowWidth s) + unat w + 1 > unat (Cols g))"

definition place :: "8 word \<Rightarrow> 8 word \<Rightarrow> console \<Rightarrow> console" where
  "place ch w s =
     s\<lparr>buffer := (buffer s)[unat (row s) :=
          (buffer s ! unat (row s))[unat (col s) := ch, unat (col s) + 1 := 0]],
       col := col s + 1,
       rowWidth := rowWidth s + (w + 1),
       dirty := True\<rparr>"

text \<open>Printing a string: \<open>write\<close> for each character in turn, stopping at an error.\<close>

fun write_all :: "lcd \<Rightarrow> glyph_width \<Rightarrow> 8 word list \<Rightarrow> console \<Rightarrow> error + console" where
  "write_all g fw [] s = Inr s"
| "write_all g fw (ch # chs) s =
     (case write_ch g fw ch s of Inl e \<Rightarrow> Inl e | Inr s' \<Rightarrow> write_all g fw chs s')"

text \<open>The display and the font of the example: 128 columns, 8 pages, every glyph 3px wide.\<close>

definition lcd128 :: lcd where
  "lcd128 = \<lparr>Cols = 128, Pages = 8\<rparr>"

definition font3 :: glyph_width where
  "font3 ch = 3"

text \<open>Two states of the example console: after 32 characters, and after 7 line-feeds.\<close>

definition after_32 :: console where
  "after_32 = projr (write_all lcd128 font3 (replicate 32 97) (Display8Console lcd128))"

definition after_7_lf :: console where
  "after_7_lf = projr (write_all lcd128 font3 (replicate 7 10) (Display8Console lcd128))"

text \<open>
  The console states reachable from the initial state by \<open>write\<close>, \<open>clear\<close> and \<open>draw\<close>
  calls that return (without an access outside the buffer).
\<close>

inductive reachable :: "lcd \<Rightarrow> glyph_width \<Rightarrow> font_draw \<Rightarrow> page_fill \<Rightarrow> console \<Rightarrow> bool"
  for g :: lcd and fw :: glyph_width and fd :: font_draw and fill :: page_fill where
  initial: "reachable g fw fd fill (Display8Console g)"
| by_write: "reachable g fw fd fill s \<Longrightarrow> write_ch g fw ch s = Inr s'
     \<Longrightarrow> reachable g fw fd fill s'"
| by_clear: "reachable g fw fd fill s \<Longrightarrow> clear g s = Inr s' \<Longrightarrow> reachable g fw fd fill s'"
| by_draw: "reachable g fw fd fill s \<Longrightarrow> draw g fd fill s tr = Some (Inr (s', tr'))
     \<Longrightarrow> reachable g fw fd fill s'"

text \<open>
  A font renderer for the examples: every character takes 4 columns of lit pixels (a 3px
  glyph and its gap), clipped to the width available.
\<close>

fun width4 :: "8 word list \<Rightarrow> 8 word" where
  "width4 [] = 0"
| "width4 (ch # text) = 4 + width4 text"

definition draw4 :: font_draw where
  "draw4 c page max_width text tr =
     (let w = (if width4 text \<le> max_width then width4 text else max_width)
      in (w, tr @ block c page (replicate (unat w) 255)))"

text \<open>
  Modelled from the spec: \<open>lcd::fillPage\<close> with the three arguments of the call in \<open>_draw\<close>,
  which is not among the sources. The spec has \<open>draw\<close> fill the remainder of the page, from
  the text's pixel width to \<open>Cols\<close>, with blank pixels; the call passes the width, \<open>Cols - width\<close>
  and the page. So the function sends, in one transfer to the page, as many blank bytes as its
  second argument says, from the column of its first argument on.
\<close>

definition lcd_fillPage :: page_fill where
  "lcd_fillPage c n page tr = Some (tr @ block c page (replicate (unat n) 0))"

text \<open>Example states: after \<open>a\<close>, after \<open>a\<close> and a line-feed, and after drawing that.\<close>

definition wrote_a :: console where
  "wrote_a = projr (write_ch lcd128 font3 97 (Display8Console lcd128))"

definition wrote_a_lf :: console where
  "wrote_a_lf = projr (write_ch lcd128 font3 10 wrote_a)"

definition drew_a_lf :: console where
  "drew_a_lf = wrote_a_lf\<lparr>dirty := False\<rparr>"

section \<open>Autoscroll console: the log of logical rows\<close>

text \<open>
  The console of section 4.2 of the spec, with the rows kept in an unbounded list instead
  of a circular buffer: \<open>texts\<close> holds every logical row ever started, oldest first, the last
  one being the current row. A line-feed starts a new, empty row; a carriage return moves
  the cursor to column 0; a printable character is put at the cursor and ends the row's text
  there. This is the reference the circular buffer is compared with.
\<close>

record log =
  texts :: "8 word list list"
  lcol :: "8 word"
  lwidth :: "8 word"

definition log_init :: log where
  "log_init = \<lparr>texts = [[]], lcol = 0, lwidth = 0\<rparr>"

definition log_lf :: "log \<Rightarrow> log" where
  "log_lf h = h\<lparr>texts := texts h @ [[]], lcol := 0, lwidth := 0\<rparr>"

definition log_place :: "8 word \<Rightarrow> 8 word \<Rightarrow> log \<Rightarrow> log" where
  "log_place ch w h =
     h\<lparr>texts := butlast (texts h) @ [take (unat (lcol h)) (last (texts h)) @ [ch]],
       lcol := lcol h + 1,
       lwidth := lwidth h + (w + 1)\<rparr>"

definition log_write :: "lcd \<Rightarrow> glyph_width \<Rightarrow> 8 word \<Rightarrow> log \<Rightarrow> log" where
  "log_write g fw ch h =
     (if printable ch
      then (let w = fw ch
            in log_place ch w
                 (if lcol h \<ge> MaxCols g \<or> unat (lwidth h) + unat w \<ge> unat (Cols g)
                  then log_lf h else h))
      else if ch = 10 then log_lf h
      else if ch = 13 then h\<lparr>lcol := 0, lwidth := 0\<rparr>
      else h)"

fun log_all :: "lcd \<Rightarrow> glyph_width \<Rightarrow> 8 word list \<Rightarrow> log \<Rightarrow> log" where
  "log_all g fw [] h = h"
| "log_all g fw (ch # chs) h = log_all g fw chs (log_write g fw ch h)"

text \<open>
  The most recent \<open>n\<close> logical rows, oldest first; when fewer than \<open>n\<close> were written, all
  of them, with empty rows below.
\<close>

definition newest :: "nat \<Rightarrow> 8 word list list \<Rightarrow> 8 word list list" where
  "newest n ts =
     (if n \<le> length ts then drop (length ts - n) ts else ts @ replicate (n - length ts) [])"

text \<open>
  Drawing a list of texts top to bottom, one per page from page \<open>i\<close> on: each text is
  rendered from column 0 and followed by the fill that \<open>_draw\<close> makes.
\<close>

fun draw_rows ::
  "lcd \<Rightarrow> font_draw \<Rightarrow> page_fill \<Rightarrow> 8 word \<Rightarrow> 8 word list list \<Rightarrow> port \<Rightarrow> port option" where
  "draw_rows g fd fill i [] tr = Some tr"
| "draw_rows g fd fill i (t # ts) tr =
     (case drawText g fd 0 i t tr of
        (width, tr1) \<Rightarrow>
          (case fill width (Cols g - width) i tr1 of
             None \<Rightarrow> None
           | Some tr2 \<Rightarrow> draw_rows g fd fill (i + 1) ts tr2))"

text \<open>
  The relation between the log and the console: the counters agree, the row index and the
  filled-row counter are those of \<open>length (texts h) - 1\<close> line-feeds, the logical row \<open>j\<close> of
  the last \<open>Pages\<close> rows is the text of buffer row \<open>j mod Pages\<close>, and the buffer rows never
  used hold the empty text.
\<close>

definition sim :: "lcd \<Rightarrow> log \<Rightarrow> console \<Rightarrow> bool" where
  "sim g h s =
     (console_inv g s
      \<and> texts h \<noteq> []
      \<and> unat (row s) = (length (texts h) - 1) mod unat (Pages g)
      \<and> unat (filledRows s) = min (length (texts h) - 1) (unat (Pages g) - 1)
      \<and> col s = lcol h \<and> rowWidth s = lwidth h
      \<and> unat (col s) \<le> length (last (texts h))
      \<and> (\<forall>j < length (texts h). length (texts h) \<le> j + unat (Pages g) \<longrightarrow>
            c_str (buffer s ! (j mod unat (Pages g))) = texts h ! j)
      \<and> (\<forall>k. length (texts h) \<le> k \<longrightarrow> k < unat (Pages g) \<longrightarrow> c_str (buffer s ! k) = []))"

text \<open>An input with ten line-feeds: the lines \<open>0\<close> to \<open>9\<close>, each ended by \<open>\\n\<close>.\<close>

definition ten_lines :: "8 word list" where
  "ten_lines = concat (map (\<lambda>k. [k, 10]) [48, 49, 50, 51, 52, 53, 54, 55, 56, 57])"

definition after_ten_lines :: console where
  "after_ten_lines = projr (write_all lcd128 font3 ten_lines (Display8Console lcd128))"

section \<open>The display memory behind the port\<close>

text \<open>
  Modelled from the spec: the pixel output port, whose three operations are empty in
  \<open>Display8\<close> and implemented by the display class, which is not among the sources.
  \<open>beginWritingPage(col, page)\<close> addresses a column of a page, every \<open>writePageByte\<close> stores
  its byte at the addressed column and moves on to the next column, \<open>endWritingPage\<close> ends the
  transfer. The display memory maps (page, column) to the byte shown there; nothing is
  clipped, a byte sent to a column from \<open>Cols\<close> on lies outside the visible page.
\<close>

type_synonym pixels = "nat \<times> nat \<Rightarrow> 8 word"

fun port_step :: "port_op \<Rightarrow> (nat \<times> nat) option \<times> pixels \<Rightarrow> (nat \<times> nat) option \<times> pixels" where
  "port_step (BeginWritingPage c p) (cur, px) = (Some (unat p, unat c), px)"
| "port_step (WritePageByte b) (cur, px) =
     (case cur of
        None \<Rightarrow> (None, px)
      | Some (p, c) \<Rightarrow> (Some (p, c + 1), px((p, c) := b)))"
| "port_step EndWritingPage (cur, px) = (None, px)"

definition display_after :: "port \<Rightarrow> pixels \<Rightarrow> pixels" where
  "display_after tr px = snd (fold port_step tr (None, px))"

text \<open>What one transfer paints.\<close>

definition paint :: "8 word \<Rightarrow> 8 word \<Rightarrow> 8 word list \<Rightarrow> pixels \<Rightarrow> pixels" where
  "paint c p bs px =
     (\<lambda>(p', c'). if p' = unat p \<and> unat c \<le> c' \<and> c' < unat c + length bs
                then bs ! (c' - unat c) else px (p', c'))"

text \<open>
  \<open>paints_only X p c n\<close>: from any state of the port, the calls \<open>X\<close> change no byte of the
  display memory outside the columns \<open>c\<close> to \<open>c + n - 1\<close> of page \<open>p\<close>.
\<close>

definition paints_only :: "port \<Rightarrow> nat \<Rightarrow> nat \<Rightarrow> nat \<Rightarrow> bool" where
  "paints_only X p c n =
     (\<forall>cur px q d. \<not> (q = p \<and> c \<le> d \<and> d < c + n) \<longrightarrow>
        snd (fold port_step X (cur, px)) (q, d) = px (q, d))"

text \<open>
  Modelled from the spec: what \<open>Font8::draw\<close>, which is not among the sources, does to the
  display. It renders the text starting at the given column on the given page, returns the
  pixel width it consumed and does not write past the width available; the width depends on
  the text, not on what was sent to the port before.
\<close>

definition in_place :: "font_draw \<Rightarrow> bool" where
  "in_place fd =
     (\<forall>c p m t tr. \<exists>X.
        fd c p m t tr = (fst (fd c p m t []), tr @ X)
        \<and> fst (fd c p m t []) \<le> m
        \<and> paints_only X (unat p) (unat c) (unat (fst (fd c p m t []))))"

text \<open>The pixel width that rendering the text of physical row \<open>i\<close> consumes.\<close>

definition drawn_width :: "lcd \<Rightarrow> font_draw \<Rightarrow> console \<Rightarrow> 8 word \<Rightarrow> 8 word" where
  "drawn_width g fd s i =
     fst (drawText g fd 0 i (c_str (buffer s ! nat (sint (row_index g s i)))) [])"

text \<open>
  The scenario of a shorter line drawn over a longer one: 32 characters are written and
  drawn, the console is cleared, \<open>ab\<close> is written and drawn.
\<close>

definition drew_32 :: console where
  "drew_32 = after_32\<lparr>dirty := False\<rparr>"

definition cleared :: console where
  "cleared = projr (clear lcd128 drew_32)"

definition wrote_ab :: console where
  "wrote_ab = projr (write_all lcd128 font3 [97, 98] cleared)"

text \<open>The port calls of the first draw, and of both draws.\<close>

definition trace_32 :: port where
  "trace_32 = (case draw lcd128 draw4 lcd_fillPage after_32 [] of Some (Inr (s, tr)) \<Rightarrow> tr | _ \<Rightarrow> [])"

definition trace_ab :: port where
  "trace_ab = (case draw lcd128 draw4 lcd_fillPage wrote_ab trace_32 of Some (Inr (s, tr)) \<Rightarrow> tr | _ \<Rightarrow> [])"

section \<open>Debouncer: proofs\<close>

lemma millis_diff: "t0 \<le> t \<Longrightarrow> millis t - millis t0 = of_nat (t - t0)"
  by (simp add: millis_def)

lemma int_cast_small:
  assumes "1 \<le> ib" "ib \<le> 32" "e < 2 ^ (ib - 1)"
  shows "int_cast ib (of_nat e) = int e"
proof -
  have a: "(2::nat) ^ (ib - 1) \<le> 2 ^ 31" using assms by (intro power_increasing) auto
  have b: "(2::nat) ^ (ib - 1) < 2 ^ ib" using assms by (intro power_strict_increasing) auto
  have e32: "e < 2 ^ 32" using a assms by simp
  have u: "uint (of_nat e :: 32 word) = int e"
    using e32 by (simp add: uint_nat unat_of_nat)
  have eib: "int e < 2 ^ ib" using b assms(3)
    by (metis less_trans of_nat_less_iff of_nat_numeral of_nat_power)
  have e1: "int e < 2 ^ (ib - 1)" using assms(3)
    by (metis of_nat_less_iff of_nat_numeral of_nat_power)
  show ?thesis using u eib e1 by (simp add: int_cast_def Let_def)
qed

lemma check_early:
  assumes "1 \<le> int_bits cfg" "int_bits cfg \<le> 32" "timeout_ms cfg \<le> 2 ^ (int_bits cfg - 1)"
    "t0 \<le> t" "int (t - t0) < timeout_ms cfg" "timestamp s = millis t0"
  shows "check cfg (millis t) s = (False, s)"
proof -
  have "int (t - t0) < 2 ^ (int_bits cfg - 1)" using assms by linarith
  then have "t - t0 < 2 ^ (int_bits cfg - 1)"
    by (metis of_nat_less_iff of_nat_numeral of_nat_power)
  then have "int_cast (int_bits cfg) (millis t - millis t0) = int (t - t0)"
    using assms by (simp only: millis_diff int_cast_small)
  then show ?thesis using assms by (simp add: check_def)
qed

lemma check_late:
  assumes "1 \<le> int_bits cfg" "int_bits cfg \<le> 32" 
    "t0 \<le> t" "timeout_ms cfg \<le> int (t - t0)" "t - t0 < 2 ^ (int_bits cfg - 1)"
    "timestamp s = millis t0" "holding s"
  shows "check cfg (millis t) s = (heldValue s \<noteq> dvalue s, s\<lparr>holding := False, dvalue := heldValue s\<rparr>)"
proof -
  have "int_cast (int_bits cfg) (millis t - millis t0) = int (t - t0)"
    using assms by (simp only: millis_diff int_cast_small)
  then show ?thesis using assms by (simp add: check_def Let_def)
qed

lemma run_Nil: "run cfg [] sn = sn"
  by (simp add: run_def)

lemma run_Cons: "run cfg (e # es) sn = run cfg es (step cfg e sn)"
  by (simp add: run_def)

lemma run_append: "run cfg (xs @ ys) sn = run cfg ys (run cfg xs sn)"
  by (simp add: run_def)

lemma run_pre:
  assumes "1 \<le> int_bits cfg" "int_bits cfg \<le> 32" "timeout_ms cfg \<le> 2 ^ (int_bits cfg - 1)"
    "holding s" "heldValue s = new" "timestamp s = millis t0"
    "\<forall>ev\<in>set pre. steady new ev \<and> early cfg t0 ev"
  shows "run cfg pre (s, n) = (s, n)"
  using assms(7)
proof (induction pre)
  case Nil
  show ?case by (simp add: run_Nil)
next
  case (Cons ev pre)
  have "step cfg ev (s, n) = (s, n)"
  proof (cases ev)
    case (SetValue b t)
    with Cons.prems have "b = new" by (simp add: steady_def)
    with SetValue assms(4,5) show ?thesis by (simp add: setValue_def)
  next
    case (Check t)
    with Cons.prems have "t0 \<le> t" "int (t - t0) < timeout_ms cfg" by (auto simp: early_def)
    then have "check cfg (millis t) s = (False, s)"
      using assms(1,2,3,6) by (rule_tac check_early) 
    with Check show ?thesis by simp
  qed
  with Cons show ?case by (simp add: run_Cons)
qed

lemma run_post:
  assumes "\<forall>ev\<in>set post. steady new ev" "dvalue s = new" "holding s \<longrightarrow> heldValue s = new"
  shows "dvalue (fst (run cfg post (s, n))) = new \<and> snd (run cfg post (s, n)) = n"
  using assms
proof (induction post arbitrary: s)
  case Nil
  then show ?case by (simp add: run_Nil)
next
  case (Cons ev post)
  obtain s' where st: "step cfg ev (s, n) = (s', n)" "dvalue s' = new" "holding s' \<longrightarrow> heldValue s' = new"
  proof (cases ev)
    case (SetValue b t)
    with Cons.prems have "b = new" by (simp add: steady_def)
    with SetValue Cons.prems(2,3) that show ?thesis by (simp add: setValue_def)
  next
    case (Check t)
    show ?thesis
    proof (cases "holding s \<and> timeout_ms cfg \<le> int_cast (int_bits cfg) (millis t - timestamp s)")
      case True
      with Check Cons.prems(2,3) that[of "s\<lparr>holding := False, dvalue := heldValue s\<rparr>"]
      show ?thesis by (simp add: check_def Let_def)
    next
      case False
      with Check Cons.prems(2,3) that[of s] show ?thesis by (simp add: check_def)
    qed
  qed
  from Cons.prems(1) have "\<forall>ev\<in>set post. steady new ev" by simp
  from Cons.IH[OF this st(2,3)] st(1) show ?case by (simp add: run_Cons)
qed

text \<open>
  Within the range of the cast the debouncer does what is asked of it. The raw signal changes
  by \<open>setValue new\<close> at the moment \<open>t0\<close> (the debouncer is not already holding \<open>new\<close>) and then
  holds steady: every later event is a \<open>check\<close> or another \<open>setValue new\<close>. As long as every
  check so far came less than \<open>timeout_ms\<close> after \<open>t0\<close>, nothing but the first \<open>setValue\<close> has
  had an effect and \<open>value()\<close> is the old value. The first check whose elapsed time
  \<open>e = t - t0\<close> satisfies \<open>timeout_ms \<le> e < 2 ^ (int_bits - 1)\<close> makes \<open>value()\<close> the new value;
  it stays so whatever steady events follow, and \<open>valueDidChange\<close> has been called exactly once
  in the whole run (not at all if \<open>new\<close> is the old value).
\<close>

lemma debounce_within_cast_range:
  assumes "holding s0 \<longrightarrow> heldValue s0 \<noteq> new"
    and "1 \<le> int_bits cfg" and "int_bits cfg \<le> 32"
    and "\<forall>ev\<in>set pre. steady new ev \<and> early cfg t0 ev"
    and "t0 \<le> t" and "timeout_ms cfg \<le> int (t - t0)" and "t - t0 < 2 ^ (int_bits cfg - 1)"
    and "\<forall>ev\<in>set post. steady new ev"
  shows "(\<forall>k. run cfg (SetValue new t0 # take k pre) (s0, 0) = (setValue new (millis t0) s0, 0)
              \<and> dvalue (setValue new (millis t0) s0) = dvalue s0)
       \<and> dvalue (fst (run cfg (SetValue new t0 # pre @ Check t # post) (s0, 0))) = new
       \<and> snd (run cfg (SetValue new t0 # pre @ Check t # post) (s0, 0))
           = (if new \<noteq> dvalue s0 then 1 else 0)"
proof -
  let ?s1 = "setValue new (millis t0) s0"
  have s1: "holding ?s1" "heldValue ?s1 = new" "timestamp ?s1 = millis t0" "dvalue ?s1 = dvalue s0"
    using assms(1) by (auto simp: setValue_def)
  have "int (t - t0) < 2 ^ (int_bits cfg - 1)" using assms(7)
    by (metis of_nat_less_iff of_nat_numeral of_nat_power)
  then have tm: "timeout_ms cfg \<le> 2 ^ (int_bits cfg - 1)" using assms(6) by linarith
  have pre: "run cfg (take k pre) (?s1, 0) = (?s1, 0)" for k
  proof -
    have "\<forall>ev\<in>set (take k pre). steady new ev \<and> early cfg t0 ev"
      using assms(4) by (meson in_set_takeD)
    from run_pre[OF assms(2,3) tm s1(1,2,3) this] show ?thesis .
  qed
  have pre_all: "run cfg pre (?s1, 0) = (?s1, 0)" using pre[of "length pre"] by simp
  have chk: "check cfg (millis t) ?s1 = (new \<noteq> dvalue s0, ?s1\<lparr>holding := False, dvalue := new\<rparr>)"
    using check_late[OF assms(2,3,5,6,7) s1(3,1)] s1 by simp
  let ?s2 = "?s1\<lparr>holding := False, dvalue := new\<rparr>"
  let ?n = "if new \<noteq> dvalue s0 then 1 else 0 :: nat"
  have whole: "run cfg (SetValue new t0 # pre @ Check t # post) (s0, 0) = run cfg post (?s2, ?n)"
    using pre_all chk by (simp add: run_Cons run_append)
  have post: "dvalue (fst (run cfg post (?s2, ?n))) = new \<and> snd (run cfg post (?s2, ?n)) = ?n"
    by (rule run_post[OF assms(8)]) simp_all
  show ?thesis using pre s1(4) whole post by (simp add: run_Cons)
qed

text \<open>
  The example: \<open>timeout_ms = 10\<close>, initial value \<open>false\<close>; \<open>setValue(true)\<close> at 0, \<open>check()\<close> at 5
  changes nothing, \<open>check()\<close> at 11 makes the value \<open>true\<close> and calls the hook once.
\<close>

lemma debounce_example:
  "\<not> holding (Debouncer cfg10 False 0)
   \<and> dvalue (fst (run cfg10 [SetValue True 0] (Debouncer cfg10 False 0, 0))) = False
   \<and> run cfg10 [SetValue True 0, Check 5] (Debouncer cfg10 False 0, 0)
       = (\<lparr>dvalue = False, holding = True, heldValue = True, timestamp = 0\<rparr>, 0)
   \<and> run cfg10 [SetValue True 0, Check 5, Check 11] (Debouncer cfg10 False 0, 0)
       = (\<lparr>dvalue = True, holding = False, heldValue = True, timestamp = 0\<rparr>, 1)"
  using debounce_within_cast_range [of "Debouncer cfg10 False 0" True cfg10 "[Check 5]" 0 11 "[]"]
  by (simp add: cfg10_def Debouncer_def run_def setValue_def check_def int_cast_def millis_def
      steady_def early_def)

text \<open>
  C5, evaluated where it fails. \<open>check\<close> compares \<open>(int)(millis() - _timestamp)\<close> with
  \<open>timeout_ms\<close>, and the cast makes an elapsed time of \<open>2 ^ (int_bits - 1)\<close> ms or more
  negative. With \<open>timeout_ms = 10\<close> and initial value \<open>false\<close>, after \<open>setValue(true)\<close> at 0 the
  first check comes 40000 ms later (16-bit \<open>int\<close>), or 2147483648 ms later (32-bit \<open>int\<close>):
  the elapsed time is at least \<open>timeout_ms\<close>, yet the check commits nothing, \<open>value()\<close> stays
  \<open>false\<close> and the hook is not called.
\<close>

theorem debounce_late_check_not_committed:
  "\<not> holding (Debouncer cfg10 False 0)
   \<and> timeout_ms cfg10 \<le> int (40000 - 0)
   \<and> run cfg10 [SetValue True 0, Check 40000] (Debouncer cfg10 False 0, 0)
       = (\<lparr>dvalue = False, holding = True, heldValue = True, timestamp = 0\<rparr>, 0)
   \<and> timeout_ms (cfg10\<lparr>int_bits := 32\<rparr>) \<le> int (2147483648 - 0)
   \<and> run (cfg10\<lparr>int_bits := 32\<rparr>) [SetValue True 0, Check 2147483648]
         (Debouncer cfg10 False 0, 0)
       = (\<lparr>dvalue = False, holding = True, heldValue = True, timestamp = 0\<rparr>, 0)"
  by (simp add: cfg10_def Debouncer_def run_def setValue_def check_def int_cast_def millis_def)

lemma rapid_take: "rapid tmo prev es \<Longrightarrow> rapid tmo prev (take k es)"
proof (induction es arbitrary: prev k)
  case Nil
  then show ?case by simp
next
  case (Cons e es)
  show ?case
  proof (cases k)
    case 0
    then show ?thesis by simp
  next
    case (Suc j)
    with Cons show ?thesis by (cases e) simp_all
  qed
qed

lemma run_rapid:
  assumes "1 \<le> int_bits cfg" "int_bits cfg \<le> 32" "timeout_ms cfg \<le> 2 ^ (int_bits cfg - 1)"
  shows "rapid (timeout_ms cfg) prev es \<Longrightarrow> tracks prev s \<Longrightarrow>
     dvalue (fst (run cfg es (s, n))) = dvalue s \<and> snd (run cfg es (s, n)) = n"
proof (induction es arbitrary: prev s)
  case Nil
  then show ?case by (simp add: run_Nil)
next
  case (Cons e es)
  show ?case
  proof (cases e)
    case (SetValue v t)
    let ?s' = "s\<lparr>holding := True, heldValue := v, timestamp := millis t\<rparr>"
    have "setValue v (millis t) s = ?s'"
      using Cons.prems SetValue by (auto simp: setValue_def tracks_def split: option.splits)
    moreover have "tracks (Some (t, v)) ?s'" by (simp add: tracks_def)
    moreover have "rapid (timeout_ms cfg) (Some (t, v)) es" using Cons.prems SetValue by simp
    ultimately show ?thesis using Cons.IH[of "Some (t, v)" ?s'] SetValue by (simp add: run_Cons)
  next
    case (Check t)
    have "check cfg (millis t) s = (False, s)"
    proof (cases prev)
      case None
      with Cons.prems show ?thesis by (simp add: tracks_def check_def)
    next
      case (Some p)
      obtain t0 v0 where p: "p = (t0, v0)" by (cases p)
      with Some Cons.prems Check have "t0 \<le> t" "int (t - t0) < timeout_ms cfg" "timestamp s = millis t0"
        by (auto simp: tracks_def)
      then show ?thesis using assms by (rule_tac check_early)
    qed
    moreover have "rapid (timeout_ms cfg) prev es" using Cons.prems Check by simp
    ultimately show ?thesis using Cons.IH[of prev s] Cons.prems(2) Check by (simp add: run_Cons)
  qed
qed

text \<open>
  C6 (as amended). From a settled state, in a run where consecutive \<open>setValue\<close> calls alternate
  between the two values less than \<open>timeout_ms\<close> apart and every \<open>check\<close> is made less than
  \<open>timeout_ms\<close> after the latest \<open>setValue\<close>, \<open>value()\<close> is the original stable value after
  every prefix of the run and \<open>valueDidChange\<close> is never called.
\<close>

theorem rapid_alternation_no_change:
  assumes "1 \<le> int_bits cfg" and "int_bits cfg \<le> 32"
    and "timeout_ms cfg \<le> 2 ^ (int_bits cfg - 1)"
    and "\<not> holding s0" and "rapid (timeout_ms cfg) None es"
  shows "dvalue (fst (run cfg (take k es) (s0, 0))) = dvalue s0
       \<and> snd (run cfg (take k es) (s0, 0)) = 0"
proof -
  have "rapid (timeout_ms cfg) None (take k es)" using assms(5) by (rule rapid_take)
  moreover have "tracks None s0" using assms(4) by (simp add: tracks_def)
  ultimately show ?thesis using run_rapid[OF assms(1,2,3)] by blast
qed

theorem rapid_alternation_no_change_witness:
  "rapid (timeout_ms cfg10) None [SetValue True 0, Check 3, SetValue False 5, Check 8, SetValue True 9, Check 18]
   \<and> \<not> holding (Debouncer cfg10 False 0)
   \<and> dvalue (fst (run cfg10 (take 6 [SetValue True 0, Check 3, SetValue False 5, Check 8, SetValue True 9, Check 18])
        (Debouncer cfg10 False 0, 0))) = False
   \<and> snd (run cfg10 (take 6 [SetValue True 0, Check 3, SetValue False 5, Check 8, SetValue True 9, Check 18])
        (Debouncer cfg10 False 0, 0)) = 0"
  using rapid_alternation_no_change [of cfg10 "Debouncer cfg10 False 0"
      "[SetValue True 0, Check 3, SetValue False 5, Check 8, SetValue True 9, Check 18]" 6]
  by (simp add: cfg10_def Debouncer_def)

text \<open>
  As stated, with no bound on the moment of a check, the claim fails: after three alternating
  samples at 0, 5 and 9 ms, a check at 19 ms commits the last sample and calls the hook.
\<close>

theorem rapid_alternation_counterexample:
  "alternating (timeout_ms cfg10) None [SetValue True 0, SetValue False 5, SetValue True 9, Check 19]
   \<and> \<not> holding (Debouncer cfg10 False 0)
   \<and> dvalue (Debouncer cfg10 False 0) = False
   \<and> run cfg10 [SetValue True 0, SetValue False 5, SetValue True 9, Check 19] (Debouncer cfg10 False 0, 0)
       = (\<lparr>dvalue = True, holding = False, heldValue = True, timestamp = 9\<rparr>, 1)"
  by (simp add: cfg10_def Debouncer_def run_def setValue_def check_def int_cast_def millis_def)

text \<open>
  C8. In a state that is holding, \<open>setValue\<close> with the value already held changes nothing:
  the stable value, the holding flag, the held value and the timestamp stay as they are.
\<close>

theorem setValue_same_held_noop:
  "holding s \<Longrightarrow> raw = heldValue s \<Longrightarrow> setValue raw now s = s"
  by (simp add: setValue_def)

theorem setValue_same_held_noop_witness:
  "holding \<lparr>dvalue = False, holding = True, heldValue = True, timestamp = 7\<rparr>
   \<and> setValue True 99 \<lparr>dvalue = False, holding = True, heldValue = True, timestamp = 7\<rparr>
       = \<lparr>dvalue = False, holding = True, heldValue = True, timestamp = 7\<rparr>"
  using setValue_same_held_noop
    [of "\<lparr>dvalue = False, holding = True, heldValue = True, timestamp = 7\<rparr>" True 99]
  by simp

section \<open>Page-display driver: the column loops\<close>

lemma u8_succ: "(c::8 word) \<le> e \<Longrightarrow> e < 255 \<Longrightarrow> unat (c + 1) = unat c + 1"
proof -
  assume "c \<le> e" "e < 255"
  then have "unat c < 255" by (simp add: word_le_nat_alt word_less_nat_alt)
  then show ?thesis by (simp add: unat_word_ariths)
qed

lemma fillPage_loop_terminates:
  "e < 255 \<Longrightarrow> unat e + 1 - unat c = n \<Longrightarrow>
   fillPage_loop c e k data tr = Some (tr @ map (\<lambda>j. WritePageByte (data j)) [k..<k + n])"
proof (induction n arbitrary: c k tr)
  case 0
  then have "\<not> c \<le> e" by (simp add: word_le_nat_alt)
  then show ?case by (subst fillPage_loop.simps) simp
next
  case (Suc n)
  then have le: "c \<le> e" by (simp add: word_le_nat_alt)
  with Suc.prems have u: "unat (c + 1) = unat c + 1" by (simp add: u8_succ)
  with Suc.prems have "unat e + 1 - unat (c + 1) = n" by simp
  from Suc.IH[OF Suc.prems(1) this, of "k + 1" "tr @ [WritePageByte (data k)]"] le
  show ?case
    by (subst fillPage_loop.simps) (simp add: upt_rec[of k "Suc (k + n)"] del: upt_Suc)
qed

lemma u8_le_255: "(c::8 word) \<le> 255"
proof -
  have "unat c < 2 ^ LENGTH(8)" by (rule unsigned_less)
  then show ?thesis by (simp add: word_le_nat_alt)
qed

lemma fillPage_loop_diverges: "fillPage_loop c 255 k data tr = None"
proof -
  have "fillPage_loop c e k data tr = Some r \<Longrightarrow> e \<noteq> 255" for e r
    by (rule fillPage_loop.raw_induct[where P = "\<lambda>c e k data tr r. e \<noteq> 255"])
       (auto split: if_splits simp: u8_le_255)
  then show ?thesis by (cases "fillPage_loop c 255 k data tr") auto
qed

lemma clearPage_loop_terminates:
  "e < 255 \<Longrightarrow> unat e + 1 - unat c = n \<Longrightarrow>
   clearPage_loop c e filler tr = Some (tr @ replicate n (WritePageByte filler))"
proof (induction n arbitrary: c tr)
  case 0
  then have "\<not> c \<le> e" by (simp add: word_le_nat_alt)
  then show ?case by (subst clearPage_loop.simps) simp
next
  case (Suc n)
  then have le: "c \<le> e" by (simp add: word_le_nat_alt)
  with Suc.prems have u: "unat (c + 1) = unat c + 1" by (simp add: u8_succ)
  with Suc.prems have "unat e + 1 - unat (c + 1) = n" by simp
  from Suc.IH[OF Suc.prems(1) this, of "tr @ [WritePageByte filler]"] le
  show ?case
    by (subst clearPage_loop.simps) (simp add: replicate_app_Cons_same)
qed

lemma clearPage_loop_diverges: "clearPage_loop c 255 filler tr = None"
proof -
  have "clearPage_loop c e filler tr = Some r \<Longrightarrow> e \<noteq> 255" for e r
    by (rule clearPage_loop.raw_induct[where P = "\<lambda>c e filler tr r. e \<noteq> 255"])
       (auto split: if_splits simp: u8_le_255)
  then show ?thesis by (cases "clearPage_loop c 255 filler tr") auto
qed

lemma span_eq: "span s e = unat e + 1 - unat s"
  by (auto simp: span_def word_le_nat_alt)

lemma fillPage_result:
  "e < 255 \<Longrightarrow> fillPage s e p data tr =
     Some (tr @ BeginWritingPage s p # map (\<lambda>j. WritePageByte (data j)) [0..<span s e] @ [EndWritingPage])"
  using fillPage_loop_terminates[of e s "span s e" 0 data "tr @ [BeginWritingPage s p]"]
  by (simp add: fillPage_def span_eq)

lemma clearPage_result:
  "e < 255 \<Longrightarrow> clearPage s e p filler tr =
     Some (tr @ BeginWritingPage s p # replicate (span s e) (WritePageByte filler) @ [EndWritingPage])"
  using clearPage_loop_terminates[of e s "span s e" filler "tr @ [BeginWritingPage s p]"]
  by (simp add: clearPage_def span_eq)

lemma bytes_written_append: "bytes_written (xs @ ys) = bytes_written xs + bytes_written ys"
  by (simp add: bytes_written_def)

lemma bytes_written_map: "bytes_written (map (\<lambda>j. WritePageByte (f j)) xs) = length xs"
  by (induction xs) (simp_all add: bytes_written_def)

lemma bytes_written_replicate: "bytes_written (replicate n (WritePageByte b)) = n"
  by (induction n) (simp_all add: bytes_written_def)

lemma bytes_fill:
  "bytes_written (BeginWritingPage s p # map (\<lambda>j. WritePageByte (f j)) xs @ [EndWritingPage]) = length xs"
proof -
  have "bytes_written ([BeginWritingPage s p] @ map (\<lambda>j. WritePageByte (f j)) xs @ [EndWritingPage])
        = 0 + (length xs + 0)"
    unfolding bytes_written_append bytes_written_map by (simp add: bytes_written_def)
  then show ?thesis by simp
qed

lemma bytes_clear:
  "bytes_written (BeginWritingPage s p # replicate n (WritePageByte b) @ [EndWritingPage]) = n"
proof -
  have "bytes_written ([BeginWritingPage s p] @ replicate n (WritePageByte b) @ [EndWritingPage])
        = 0 + (n + 0)"
    unfolding bytes_written_append bytes_written_replicate by (simp add: bytes_written_def)
  then show ?thesis by simp
qed

text \<open>
  C10. For \<open>end_col < 255\<close> both \<open>fillPage\<close> and \<open>clearPage\<close> return, having made one
  \<open>beginWritingPage\<close> call, \<open>end_col - start_col + 1\<close> byte writes when
  \<open>start_col \<le> end_col\<close> and none otherwise, and one \<open>endWritingPage\<close> call. For
  \<open>end_col = 255\<close> the test \<open>c <= end_col\<close> holds of every 8-bit \<open>c\<close> and neither returns.
\<close>

theorem page_loops_terminate_unless_end_255:
  "(end_col < 255 \<longrightarrow>
      (\<exists>tr'. fillPage start_col end_col page data tr = Some (tr @ tr')
         \<and> tr' = BeginWritingPage start_col page
                # map (\<lambda>j. WritePageByte (data j)) [0..<span start_col end_col] @ [EndWritingPage]
         \<and> bytes_written tr' = span start_col end_col)
    \<and> (\<exists>tr'. clearPage start_col end_col page filler tr = Some (tr @ tr')
         \<and> tr' = BeginWritingPage start_col page
                # replicate (span start_col end_col) (WritePageByte filler) @ [EndWritingPage]
         \<and> bytes_written tr' = span start_col end_col))
   \<and> (end_col = 255 \<longrightarrow>
        fillPage start_col end_col page data tr = None
      \<and> clearPage start_col end_col page filler tr = None)"
proof (intro conjI impI)
  assume e: "end_col < 255"
  show "\<exists>tr'. fillPage start_col end_col page data tr = Some (tr @ tr')
         \<and> tr' = BeginWritingPage start_col page
                # map (\<lambda>j. WritePageByte (data j)) [0..<span start_col end_col] @ [EndWritingPage]
         \<and> bytes_written tr' = span start_col end_col"
    using fillPage_result[OF e, of start_col page data tr]
      bytes_fill[of start_col page data "[0..<span start_col end_col]"] by simp
  show "\<exists>tr'. clearPage start_col end_col page filler tr = Some (tr @ tr')
         \<and> tr' = BeginWritingPage start_col page
                # replicate (span start_col end_col) (WritePageByte filler) @ [EndWritingPage]
         \<and> bytes_written tr' = span start_col end_col"
    using clearPage_result[OF e, of start_col page filler tr]
      bytes_clear[of start_col page "span start_col end_col" filler] by simp
next
  assume "end_col = 255"
  then show "fillPage start_col end_col page data tr = None"
    by (simp add: fillPage_def fillPage_loop_diverges)
next
  assume "end_col = 255"
  then show "clearPage start_col end_col page filler tr = None"
    by (simp add: clearPage_def clearPage_loop_diverges)
qed

theorem page_loops_terminate_unless_end_255_witness:
  "(3::8 word) < 255
   \<and> fillPage 3 5 2 (\<lambda>j. of_nat j + 16) [] =
       Some [BeginWritingPage 3 2, WritePageByte 16, WritePageByte 17, WritePageByte 18, EndWritingPage]
   \<and> clearPage 6 5 2 0 [] = Some [BeginWritingPage 6 2, EndWritingPage]
   \<and> fillPage 200 255 0 (\<lambda>j. 0) [] = None
   \<and> clearPage 0 255 0 0 [] = None"
  using page_loops_terminate_unless_end_255 [of 5 3 2 "\<lambda>j. of_nat j + 16" "[]" 0]
    page_loops_terminate_unless_end_255 [of 5 6 2 "\<lambda>j. 0" "[]" 0]
    page_loops_terminate_unless_end_255 [of 255 200 0 "\<lambda>j. 0" "[]" 0]
    page_loops_terminate_unless_end_255 [of 255 0 0 "\<lambda>j. 0" "[]" 0]
  by (simp add: span_def upt_rec)

section \<open>Autoscroll console: line-feed and write\<close>

lemma u8_inc: "unat (x::8 word) < 255 \<Longrightarrow> unat (x + 1) = unat x + 1"
  by (simp add: unat_word_ariths)

lemma u8_bound: "unat (x::8 word) \<le> 255"
proof -
  have "unat x < 2 ^ LENGTH(8)" by (rule unsigned_less)
  then show ?thesis by simp
qed

lemma MaxCols_unat: "unat (MaxCols g) = unat (Cols g) div 4"
  by (simp add: MaxCols_def unat_div)

lemma store_ok:
  "r < Pages g \<Longrightarrow> c \<le> MaxCols g \<Longrightarrow>
   store g r c v s = Inr (s\<lparr>buffer := (buffer s)[unat r := (buffer s ! unat r)[unat c := v]]\<rparr>)"
  by (simp add: store_def)

text \<open>The state a line-feed produces, on the counters as natural numbers.\<close>

lemma lf_result:
  assumes "row s < Pages g" "unat (filledRows s) + 1 \<le> unat (Pages g)"
  shows "\<exists>r' f'. lf g s = Inr (s\<lparr>col := 0, rowWidth := 0, row := r', filledRows := f',
             buffer := (buffer s)[unat r' := (buffer s ! unat r')[0 := 0]]\<rparr>)
           \<and> unat r' = (unat (row s) + 1) mod unat (Pages g)
           \<and> unat f' = min (unat (filledRows s) + 1) (unat (Pages g) - 1)
           \<and> r' < Pages g"
proof -
  let ?P = "unat (Pages g)"
  have P: "?P \<le> 255" by (rule u8_bound)
  have r: "unat (row s) < ?P" using assms(1) by (simp add: word_less_nat_alt)
  have ur: "unat (row s + 1) = unat (row s) + 1" using r P by (intro u8_inc) simp
  have uf: "unat (filledRows s + 1) = unat (filledRows s) + 1" using assms(2) P by (intro u8_inc) simp
  define r' where "r' = (if row s + 1 \<ge> Pages g then 0 else row s + 1)"
  define f' where "f' = (if filledRows s + 1 \<ge> Pages g then filledRows s + 1 - 1 else filledRows s + 1)"
  have r'v: "unat r' = (unat (row s) + 1) mod ?P"
  proof (cases "unat (row s) + 1 = ?P")
    case True
    then show ?thesis using ur by (simp add: r'_def word_le_nat_alt)
  next
    case False
    with r have "unat (row s) + 1 < ?P" by simp
    then show ?thesis using ur by (simp add: r'_def word_le_nat_alt)
  qed
  have r'lt: "r' < Pages g" using r ur
    by (auto simp: r'_def word_le_nat_alt word_less_nat_alt not_le)
  have f'v: "unat f' = min (unat (filledRows s) + 1) (?P - 1)"
    using assms(2) uf by (auto simp: f'_def word_le_nat_alt not_le)
  have "lf g s = Inr (s\<lparr>col := 0, rowWidth := 0, row := r', filledRows := f',
             buffer := (buffer s)[unat r' := (buffer s ! unat r')[0 := 0]]\<rparr>)"
    using r'lt unfolding r'_def f'_def lf_def Let_def
    by (auto simp: store_def split: if_splits)
  with r'v f'v r'lt show ?thesis by blast
qed

lemma c_str_terminated_at_0: "xs \<noteq> [] \<Longrightarrow> c_str (xs[0 := 0]) = []"
  by (cases xs) (simp_all add: c_str_def)

text \<open>
  C4. In a console state that satisfies the invariant, a line-feed succeeds and resets the
  column and the row width to 0, advances the row index to \<open>(row + 1) mod Pages\<close>, makes the
  filled-row counter \<open>min (filledRows + 1) (Pages - 1)\<close>, so at most \<open>Pages - 1\<close>, and puts
  the terminator at position 0 of the new current row, whose text is then empty; the other
  rows and the dirty flag are unchanged.
\<close>

theorem line_feed_effect:
  assumes "console_inv g s"
  shows "\<exists>s'. lf g s = Inr s'
     \<and> col s' = 0 \<and> rowWidth s' = 0
     \<and> unat (row s') = (unat (row s) + 1) mod unat (Pages g)
     \<and> unat (filledRows s') = min (unat (filledRows s) + 1) (unat (Pages g) - 1)
     \<and> unat (filledRows s') \<le> unat (Pages g) - 1
     \<and> buffer s' ! unat (row s') ! 0 = 0
     \<and> c_str (buffer s' ! unat (row s')) = []
     \<and> (\<forall>k. k \<noteq> unat (row s') \<longrightarrow> buffer s' ! k = buffer s ! k)
     \<and> dirty s' = dirty s"
proof -
  from assms have a: "row s < Pages g" "unat (filledRows s) + 1 \<le> unat (Pages g)"
    and len: "length (buffer s) = unat (Pages g)"
    and rows: "\<forall>r \<in> set (buffer s). length r = unat (MaxCols g) + 1"
    by (simp_all add: console_inv_def)
  from lf_result[OF a] obtain r' f' where
    l: "lf g s = Inr (s\<lparr>col := 0, rowWidth := 0, row := r', filledRows := f',
             buffer := (buffer s)[unat r' := (buffer s ! unat r')[0 := 0]]\<rparr>)"
    and r': "unat r' = (unat (row s) + 1) mod unat (Pages g)"
    and f': "unat f' = min (unat (filledRows s) + 1) (unat (Pages g) - 1)"
    and lt: "r' < Pages g" by blast
  have in_range: "unat r' < length (buffer s)" using lt len by (simp add: word_less_nat_alt)
  then have "buffer s ! unat r' \<in> set (buffer s)" by simp
  with rows have ne: "buffer s ! unat r' \<noteq> []" by fastforce
  show ?thesis
    using l r' f' in_range ne by (simp add: c_str_terminated_at_0) 
qed

theorem line_feed_effect_witness:
  "console_inv lcd128 after_7_lf
   \<and> row after_7_lf = 7 \<and> filledRows after_7_lf = 7
   \<and> map_sum id (\<lambda>s. (row s, filledRows s, col s, rowWidth s, c_str (buffer s ! 0)))
         (lf lcd128 after_7_lf) = Inr (0, 7, 0, 0, [])"
proof -
  have inv: "console_inv lcd128 after_7_lf" by code_simp
  have ev: "row after_7_lf = 7 \<and> filledRows after_7_lf = 7
     \<and> map_sum id (\<lambda>s. (row s, filledRows s, col s, rowWidth s, c_str (buffer s ! 0)))
         (lf lcd128 after_7_lf) = Inr (0, 7, 0, 0, [])" by code_simp
  from line_feed_effect[OF inv] inv ev show ?thesis by simp
qed

text \<open>
  C7 (as amended). A control character other than \<open>\\n\<close> and \<open>\\r\<close> leaves the row buffers,
  the row index, the column index, the row width and the filled-row counter unchanged, and
  sets the dirty flag.
\<close>

theorem control_char_only_marks_dirty:
  "\<not> printable ch \<Longrightarrow> ch \<noteq> 10 \<Longrightarrow> ch \<noteq> 13 \<Longrightarrow> write_ch g fw ch s = Inr (s\<lparr>dirty := True\<rparr>)"
  by (simp add: write_ch_def)

theorem control_char_only_marks_dirty_witness:
  "\<not> printable 7 \<and> (7::8 word) \<noteq> 10 \<and> (7::8 word) \<noteq> 13
   \<and> write_ch lcd128 font3 7 after_32 = Inr (after_32\<lparr>dirty := True\<rparr>)"
proof -
  have np: "\<not> printable 7" by code_simp
  from control_char_only_marks_dirty[OF np, of lcd128 font3 after_32] np show ?thesis by simp
qed

text \<open>
  As stated the claim fails: on the initial console, whose dirty flag is false, the bell
  character sets the flag, so the state is not unchanged.
\<close>

theorem control_char_sets_dirty_counterexample:
  "\<not> printable 7 \<and> (7::8 word) \<noteq> 10 \<and> (7::8 word) \<noteq> 13
   \<and> dirty (Display8Console lcd128) = False
   \<and> map_sum id dirty (write_ch lcd128 font3 7 (Display8Console lcd128)) = Inr True
   \<and> write_ch lcd128 font3 7 (Display8Console lcd128) \<noteq> Inr (Display8Console lcd128)"
  by code_simp

lemma place_ok:
  assumes "row s < Pages g" "col s < MaxCols g" "length (buffer s) = unat (Pages g)"
  shows "(case store g (row s) (col s) ch s of
            Inl e \<Rightarrow> Inl e
          | Inr s2 \<Rightarrow>
              (let s3 = s2\<lparr>col := col s2 + 1\<rparr>
               in case store g (row s3) (col s3) 0 s3 of
                    Inl e \<Rightarrow> Inl e
                  | Inr s4 \<Rightarrow> Inr (s4\<lparr>rowWidth := rowWidth s4 + (w + 1), dirty := True\<rparr>)))
         = Inr (place ch w s)"
proof -
  have c: "unat (col s) < unat (MaxCols g)" using assms(2) by (simp add: word_less_nat_alt)
  have "unat (MaxCols g) \<le> 255" by (rule u8_bound)
  with c have u: "unat (col s + 1) = unat (col s) + 1" by (intro u8_inc) simp
  with c have le: "col s + 1 \<le> MaxCols g" by (simp add: word_le_nat_alt)
  have le0: "col s \<le> MaxCols g" using assms(2) by simp
  have r: "unat (row s) < length (buffer s)" using assms(1,3) by (simp add: word_less_nat_alt)
  show ?thesis
    using assms(1) le le0 r u by (simp add: store_def place_def Let_def)
qed

lemma overflows_iff:
  "overflows g w s \<longleftrightarrow> (col s \<ge> MaxCols g \<or> unat (rowWidth s) + unat w \<ge> unat (Cols g))"
  by (auto simp: overflows_def word_le_nat_alt)

lemma MaxCols_pos: "valid_lcd g \<Longrightarrow> 0 < MaxCols g"
proof -
  assume "valid_lcd g"
  then have "4 \<le> unat (Cols g)" by (simp add: valid_lcd_def word_le_nat_alt)
  then have "0 < unat (MaxCols g)" by (simp add: MaxCols_unat)
  then show ?thesis by (simp add: word_less_nat_alt)
qed

text \<open>What \<open>write\<close> does with a printable character, in the two cases of its guard.\<close>

lemma write_ch_printable:
  assumes "valid_lcd g" and "console_inv g s" and "printable ch"
  shows "(overflows g (fw ch) s \<longrightarrow>
            (\<exists>s1. lf g s = Inr s1
               \<and> write_ch g fw ch s = Inr (place ch (fw ch) s1)
               \<and> unat (row s1) = (unat (row s) + 1) mod unat (Pages g)
               \<and> col s1 = 0 \<and> rowWidth s1 = 0))
       \<and> (\<not> overflows g (fw ch) s \<longrightarrow> write_ch g fw ch s = Inr (place ch (fw ch) s))"
proof (intro conjI impI)
  from assms(2) have a: "row s < Pages g" "unat (filledRows s) + 1 \<le> unat (Pages g)"
    and len: "length (buffer s) = unat (Pages g)"
    by (simp_all add: console_inv_def)
  {
    assume ov: "overflows g (fw ch) s"
    from lf_result[OF a] obtain r' f' where
      l: "lf g s = Inr (s\<lparr>col := 0, rowWidth := 0, row := r', filledRows := f',
               buffer := (buffer s)[unat r' := (buffer s ! unat r')[0 := 0]]\<rparr>)"
      and r': "unat r' = (unat (row s) + 1) mod unat (Pages g)"
      and lt: "r' < Pages g" by blast
    let ?s1 = "s\<lparr>col := 0, rowWidth := 0, row := r', filledRows := f',
               buffer := (buffer s)[unat r' := (buffer s ! unat r')[0 := 0]]\<rparr>"
    have "row ?s1 < Pages g" "col ?s1 < MaxCols g" "length (buffer ?s1) = unat (Pages g)"
      using lt len MaxCols_pos[OF assms(1)] by simp_all
    from place_ok[OF this, where ch=ch and w="fw ch"] l ov assms(3)
    have "write_ch g fw ch s = Inr (place ch (fw ch) ?s1)"
      by (simp add: write_ch_def overflows_iff Let_def)
    with l r' show "\<exists>s1. lf g s = Inr s1
               \<and> write_ch g fw ch s = Inr (place ch (fw ch) s1)
               \<and> unat (row s1) = (unat (row s) + 1) mod unat (Pages g)
               \<and> col s1 = 0 \<and> rowWidth s1 = 0" by simp
  }
  {
    assume nov: "\<not> overflows g (fw ch) s"
    then have "col s < MaxCols g" by (simp add: overflows_iff not_le)
    from place_ok[OF a(1) this len, where ch=ch and w="fw ch"] nov assms(3)
    show "write_ch g fw ch s = Inr (place ch (fw ch) s)"
      by (simp add: write_ch_def overflows_iff Let_def)
  }
qed

text \<open>
  C3. In a console state that satisfies the invariant, writing a printable character \<open>ch\<close>
  with glyph width \<open>w\<close> makes one line-feed and then places \<open>ch\<close> at the start of the new
  row exactly when appending \<open>ch\<close> would exceed \<open>MaxCols\<close> characters or make the accumulated
  row width (with the glyph and its 1px gap) exceed \<open>Cols\<close>; otherwise it places \<open>ch\<close> at the
  cursor of the current row without a line-feed.
\<close>

theorem write_line_feed_iff_overflow:
  assumes "valid_lcd g" and "console_inv g s" and "printable ch"
  shows "(overflows g (fw ch) s \<longrightarrow>
            (\<exists>s1. lf g s = Inr s1
               \<and> write_ch g fw ch s = Inr (place ch (fw ch) s1)
               \<and> unat (row s1) = (unat (row s) + 1) mod unat (Pages g)
               \<and> col s1 = 0 \<and> rowWidth s1 = 0))
       \<and> (\<not> overflows g (fw ch) s \<longrightarrow> write_ch g fw ch s = Inr (place ch (fw ch) s))"
  using assms by (rule write_ch_printable)

text \<open>
  The example: \<open>Cols = 128\<close>, \<open>Pages = 8\<close>, \<open>MaxCols = 32\<close>, glyphs 3px wide. After 32
  characters they all sit on row 0 and the 33rd overflows; after 40 characters there has been
  one line-feed, row 0 holds 32 characters and row 1 the remaining 8.
\<close>

theorem write_line_feed_iff_overflow_witness:
  "valid_lcd lcd128 \<and> console_inv lcd128 after_32 \<and> printable 97
   \<and> overflows lcd128 (font3 97) after_32
   \<and> write_ch lcd128 font3 97 after_32 = Inr (place 97 (font3 97) (projr (lf lcd128 after_32)))
   \<and> map_sum id (\<lambda>s. (row s, col s, filledRows s, c_str (buffer s ! 0)))
        (write_all lcd128 font3 (replicate 32 97) (Display8Console lcd128))
      = Inr (0, 32, 0, replicate 32 97)
   \<and> map_sum id (\<lambda>s. (row s, col s, filledRows s, c_str (buffer s ! 0), c_str (buffer s ! 1)))
        (write_all lcd128 font3 (replicate 40 97) (Display8Console lcd128))
      = Inr (1, 8, 1, replicate 32 97, replicate 8 97)"
proof -
  have h1: "valid_lcd lcd128" by code_simp
  have h2: "console_inv lcd128 after_32" by code_simp
  have h3: "printable 97" by code_simp
  have ov: "overflows lcd128 (font3 97) after_32" by code_simp
  from write_line_feed_iff_overflow[OF h1 h2 h3, of font3] ov
  obtain s1 where "lf lcd128 after_32 = Inr s1"
    "write_ch lcd128 font3 97 after_32 = Inr (place 97 (font3 97) s1)" by blast
  then have c: "write_ch lcd128 font3 97 after_32
      = Inr (place 97 (font3 97) (projr (lf lcd128 after_32)))" by simp
  have e32: "map_sum id (\<lambda>s. (row s, col s, filledRows s, c_str (buffer s ! 0)))
        (write_all lcd128 font3 (replicate 32 97) (Display8Console lcd128))
      = Inr (0, 32, 0, replicate 32 97)" by code_simp
  have e40: "map_sum id (\<lambda>s. (row s, col s, filledRows s, c_str (buffer s ! 0), c_str (buffer s ! 1)))
        (write_all lcd128 font3 (replicate 40 97) (Display8Console lcd128))
      = Inr (1, 8, 1, replicate 32 97, replicate 8 97)" by code_simp
  from h1 h2 h3 ov c e32 e40 show ?thesis by blast
qed

section \<open>Autoscroll console: the invariant\<close>

lemma sint_small: "- 128 \<le> v \<Longrightarrow> v < 128 \<Longrightarrow> sint (word_of_int v :: 8 word) = v"
  by (simp add: sint_sbintrunc' signed_take_bit_int_eq_self)

lemma row_sum_word:
  "(r::8 word) - f + i = word_of_int (uint r - uint f + uint i)"
  by simp

lemma row_index_value:
  assumes "valid_lcd g" "console_inv g s" "i < Pages g"
  shows "sint (row_index g s i)
         = (uint (row s) - uint (filledRows s) + uint i) mod uint (Pages g)"
    and "0 \<le> sint (row_index g s i)" and "sint (row_index g s i) < uint (Pages g)"
proof -
  let ?P = "uint (Pages g)"
  let ?v = "uint (row s) - uint (filledRows s) + uint i"
  have P: "?P \<le> 128" using assms(1) by (simp add: valid_lcd_def word_le_def)
  have "unat (filledRows s) + 1 \<le> unat (Pages g)"
    using assms(2) by (simp add: console_inv_def)
  then have f: "uint (filledRows s) < ?P" unfolding uint_nat by linarith
  have rf: "uint (row s) \<le> uint (filledRows s)"
    using assms(2) by (simp add: console_inv_def word_le_def)
  have i: "uint i < ?P" using assms(3) by (simp add: word_less_def)
  have r0: "0 \<le> uint (row s)" and i0: "0 \<le> uint i" by simp_all
  have lo: "- ?P < ?v" using f rf i r0 i0 by linarith
  have hi: "?v < ?P" using f rf i r0 i0 by linarith
  have s1: "sint (row s - filledRows s + i) = ?v"
    unfolding row_sum_word using lo hi P by (intro sint_small) linarith+
  have val: "sint (row_index g s i) = (if ?v < 0 then ?v + ?P else ?v)"
  proof (cases "?v < 0")
    case True
    have "row s - filledRows s + i + Pages g = word_of_int (?v + ?P)" by simp
    moreover have "sint (word_of_int (?v + ?P) :: 8 word) = ?v + ?P"
      using True lo hi P by (intro sint_small) linarith+
    ultimately show ?thesis using True s1 by (simp add: row_index_def Let_def)
  next
    case False
    then show ?thesis using s1 by (simp add: row_index_def Let_def)
  qed
  have m: "(if ?v < 0 then ?v + ?P else ?v) = ?v mod ?P"
  proof (cases "?v < 0")
    case True
    then have "?v mod ?P = (?v + ?P) mod ?P" by simp
    also have "\<dots> = ?v + ?P" using True lo by (intro mod_pos_pos_trivial) linarith+
    finally show ?thesis using True by simp
  next
    case False
    then show ?thesis using hi by (simp add: mod_pos_pos_trivial)
  qed
  show "sint (row_index g s i) = ?v mod ?P"
    using val m by simp
  show "0 \<le> sint (row_index g s i)" using val lo by (simp split: if_splits)
  show "sint (row_index g s i) < uint (Pages g)" using val hi by (simp split: if_splits)
qed

lemma inv_init: "valid_lcd g \<Longrightarrow> console_inv g (Display8Console g)"
proof -
  assume "valid_lcd g"
  then have "0 < unat (Pages g)" by (simp add: valid_lcd_def word_le_nat_alt)
  then show ?thesis
    by (simp add: console_inv_def Display8Console_def word_less_nat_alt)
qed

lemma inv_dirty: "console_inv g (s\<lparr>dirty := d\<rparr>) = console_inv g s"
  by (simp add: console_inv_def)

lemma inv_cr: "console_inv g s \<Longrightarrow> console_inv g (cr s)"
  by (simp add: console_inv_def cr_def)

lemma rows_update:
  assumes "\<forall>r \<in> set B. length r = n \<and> (0::8 word) \<in> set r" "length y = n" "0 \<in> set y"
  shows "\<forall>r \<in> set (B[k := y]). length r = n \<and> 0 \<in> set r"
  using assms set_update_subset_insert[of B k y] by auto

lemma inv_lf:
  assumes "console_inv g s" "lf g s = Inr s'"
  shows "console_inv g s'"
proof -
  from assms(1) have a: "row s < Pages g" "unat (filledRows s) + 1 \<le> unat (Pages g)"
    and len: "length (buffer s) = unat (Pages g)"
    and rows: "\<forall>r \<in> set (buffer s). length r = unat (MaxCols g) + 1 \<and> 0 \<in> set r"
    and rf: "unat (row s) \<le> unat (filledRows s)"
    by (simp_all add: console_inv_def word_le_nat_alt)
  from lf_result[OF a] assms(2) obtain r' f' where
    s': "s' = s\<lparr>col := 0, rowWidth := 0, row := r', filledRows := f',
             buffer := (buffer s)[unat r' := (buffer s ! unat r')[0 := 0]]\<rparr>"
    and r': "unat r' = (unat (row s) + 1) mod unat (Pages g)"
    and f': "unat f' = min (unat (filledRows s) + 1) (unat (Pages g) - 1)"
    and lt: "r' < Pages g" by auto
  let ?y = "(buffer s ! unat r')[0 := 0]"
  have in_range: "unat r' < length (buffer s)" using lt len by (simp add: word_less_nat_alt)
  then have mem: "buffer s ! unat r' \<in> set (buffer s)" by simp
  with rows have ly: "length ?y = unat (MaxCols g) + 1" by simp
  then have "?y ! 0 = 0" by simp
  then have zy: "0 \<in> set ?y" using ly by (metis Suc_eq_plus1 nth_mem zero_less_Suc)
  have rows': "\<forall>r \<in> set ((buffer s)[unat r' := ?y]). length r = unat (MaxCols g) + 1 \<and> 0 \<in> set r"
    using rows ly zy by (rule rows_update)
  have rf': "unat r' \<le> unat f'"
  proof (cases "unat (row s) + 1 < unat (Pages g)")
    case True
    then show ?thesis using r' f' rf by simp
  next
    case False
    with a(1) have "unat (row s) + 1 = unat (Pages g)" by (simp add: word_less_nat_alt)
    then show ?thesis using r' by simp
  qed
  have f'le: "unat f' + 1 \<le> unat (Pages g)" using f' a(2) by simp
  show ?thesis
    using len rows' lt rf' f'le by (simp add: s' console_inv_def word_le_nat_alt)
qed

lemma inv_place:
  assumes "console_inv g s" "col s < MaxCols g"
  shows "console_inv g (place ch w s)"
proof -
  from assms(1) have r: "row s < Pages g"
    and len: "length (buffer s) = unat (Pages g)"
    and rows: "\<forall>r \<in> set (buffer s). length r = unat (MaxCols g) + 1 \<and> 0 \<in> set r"
    and rest: "row s \<le> filledRows s" "unat (filledRows s) + 1 \<le> unat (Pages g)"
    by (simp_all add: console_inv_def)
  have c: "unat (col s) < unat (MaxCols g)" using assms(2) by (simp add: word_less_nat_alt)
  have "unat (MaxCols g) \<le> 255" by (rule u8_bound)
  with c have u: "unat (col s + 1) = unat (col s) + 1" by (intro u8_inc) simp
  with c have le: "col s + 1 \<le> MaxCols g" by (simp add: word_le_nat_alt)
  let ?y = "(buffer s ! unat (row s))[unat (col s) := ch, unat (col s) + 1 := 0]"
  have "unat (row s) < length (buffer s)" using r len by (simp add: word_less_nat_alt)
  then have "buffer s ! unat (row s) \<in> set (buffer s)" by simp
  with rows have ly: "length ?y = unat (MaxCols g) + 1" by simp
  with c have "?y ! (unat (col s) + 1) = 0" by simp
  moreover have "unat (col s) + 1 < length ?y" using ly c by simp
  ultimately have zy: "0 \<in> set ?y" by (metis nth_mem)
  have rows': "\<forall>r \<in> set ((buffer s)[unat (row s) := ?y]). length r = unat (MaxCols g) + 1 \<and> 0 \<in> set r"
    using rows ly zy by (rule rows_update)
  show ?thesis
    using len rows' r le rest by (simp add: place_def console_inv_def)
qed

lemma write_ch_inv:
  assumes "valid_lcd g" "console_inv g s"
  shows "\<exists>s'. write_ch g fw ch s = Inr s' \<and> console_inv g s'"
proof (cases "printable ch")
  case True
  note pr = write_ch_printable[OF assms True, of fw]
  show ?thesis
  proof (cases "overflows g (fw ch) s")
    case True
    with pr obtain s1 where s1: "lf g s = Inr s1"
      "write_ch g fw ch s = Inr (place ch (fw ch) s1)" "col s1 = 0" by blast
    have "console_inv g s1" using assms(2) s1(1) by (rule inv_lf)
    moreover have "col s1 < MaxCols g" using s1(3) MaxCols_pos[OF assms(1)] by simp
    ultimately have "console_inv g (place ch (fw ch) s1)" by (rule inv_place)
    with s1(2) show ?thesis by simp
  next
    case False
    with pr have w: "write_ch g fw ch s = Inr (place ch (fw ch) s)" by simp
    from False have "col s < MaxCols g" by (simp add: overflows_iff not_le)
    with assms(2) have "console_inv g (place ch (fw ch) s)" by (rule inv_place)
    with w show ?thesis by simp
  qed
next
  case False
  from assms(2) have a: "row s < Pages g" "unat (filledRows s) + 1 \<le> unat (Pages g)"
    by (simp_all add: console_inv_def)
  from lf_result[OF a] obtain s1 where l: "lf g s = Inr s1" by blast
  then have "console_inv g s1" using assms(2) inv_lf by blast
  then show ?thesis
    using False l assms(2) by (simp add: write_ch_def inv_dirty inv_cr)
qed

lemma clear_loop_ok:
  "length (buffer s) = unat (Pages g) \<Longrightarrow>
   \<forall>x \<in> set (buffer s). length x = n + 1 \<Longrightarrow>
   \<forall>k < unat r. buffer s ! k ! 0 = 0 \<Longrightarrow>
   r \<le> Pages g \<Longrightarrow>
   \<exists>s'. clear_loop g r s = Inr s'
      \<and> row s' = row s \<and> col s' = col s \<and> rowWidth s' = rowWidth s
      \<and> filledRows s' = filledRows s \<and> dirty s' = dirty s
      \<and> length (buffer s') = unat (Pages g)
      \<and> (\<forall>x \<in> set (buffer s'). length x = n + 1)
      \<and> (\<forall>k < unat (Pages g). buffer s' ! k ! 0 = 0)"
proof (induction g r s rule: clear_loop.induct)
  case (1 g r s)
  show ?case
  proof (cases "r < Pages g")
    case True
    let ?s1 = "s\<lparr>buffer := (buffer s)[unat r := (buffer s ! unat r)[0 := 0]]\<rparr>"
    have st: "store g r 0 0 s = Inr ?s1" using True by (simp add: store_def)
    have ur: "unat r < unat (Pages g)" using True by (simp add: word_less_nat_alt)
    have "unat (Pages g) \<le> 255" by (rule u8_bound)
    with ur have u: "unat (r + 1) = unat r + 1" by (intro u8_inc) simp
    have len1: "length (buffer ?s1) = unat (Pages g)" using "1.prems"(1) by simp
    have mem: "buffer s ! unat r \<in> set (buffer s)" using ur "1.prems"(1) by simp
    have rows1: "\<forall>x \<in> set (buffer ?s1). length x = n + 1"
      using "1.prems"(2) mem
        set_update_subset_insert[of "buffer s" "unat r" "(buffer s ! unat r)[0 := 0]"] by auto
    have z1: "\<forall>k < unat (r + 1). buffer ?s1 ! k ! 0 = 0"
    proof (intro allI impI)
      fix k assume "k < unat (r + 1)"
      with u have "k < unat r \<or> k = unat r" by auto
      then show "buffer ?s1 ! k ! 0 = 0"
      proof
        assume "k < unat r"
        then show ?thesis using "1.prems"(3) by simp
      next
        assume "k = unat r"
        then show ?thesis using ur "1.prems"(1,2) mem by simp
      qed
    qed
    have le1: "r + 1 \<le> Pages g" using ur u by (simp add: word_le_nat_alt)
    from "1.IH"[OF True st len1 rows1 z1 le1] True st show ?thesis by simp
  next
    case False
    with "1.prems"(4) have "r = Pages g" by simp
    with False "1.prems" show ?thesis by simp
  qed
qed

lemma starts_with_0: "length x = n + 1 \<Longrightarrow> x ! 0 = (0::8 word) \<Longrightarrow> 0 \<in> set x \<and> c_str x = []"
  by (cases x) (simp_all add: c_str_def)

lemma clear_inv:
  assumes "valid_lcd g" "console_inv g s"
  shows "\<exists>s'. clear g s = Inr s' \<and> console_inv g s'
           \<and> row s' = 0 \<and> filledRows s' = 0 \<and> col s' = 0 \<and> rowWidth s' = 0 \<and> dirty s'
           \<and> (\<forall>k < unat (Pages g). c_str (buffer s' ! k) = [])"
proof -
  let ?s0 = "s\<lparr>row := 0, filledRows := 0, col := 0, rowWidth := 0\<rparr>"
  from assms(2) have len: "length (buffer ?s0) = unat (Pages g)"
    and rows: "\<forall>x \<in> set (buffer ?s0). length x = unat (MaxCols g) + 1"
    by (simp_all add: console_inv_def)
  have z: "\<forall>k < unat (0::8 word). buffer ?s0 ! k ! 0 = 0" by simp
  from clear_loop_ok[OF len rows z] obtain s1 where
    c: "clear_loop g 0 ?s0 = Inr s1"
    and f: "row s1 = 0" "col s1 = 0" "rowWidth s1 = 0" "filledRows s1 = 0"
    and len1: "length (buffer s1) = unat (Pages g)"
    and rows1: "\<forall>x \<in> set (buffer s1). length x = unat (MaxCols g) + 1"
    and z1: "\<forall>k < unat (Pages g). buffer s1 ! k ! 0 = 0" by auto
  have each: "0 \<in> set (buffer s1 ! k) \<and> c_str (buffer s1 ! k) = []" if "k < unat (Pages g)" for k
  proof -
    have "buffer s1 ! k \<in> set (buffer s1)" using that len1 by simp
    with rows1 have "length (buffer s1 ! k) = unat (MaxCols g) + 1" by simp
    then show ?thesis using z1 that by (intro starts_with_0) simp_all
  qed
  have rows2: "\<forall>x \<in> set (buffer s1). length x = unat (MaxCols g) + 1 \<and> 0 \<in> set x"
  proof
    fix x assume "x \<in> set (buffer s1)"
    then obtain k where "k < length (buffer s1)" "x = buffer s1 ! k" by (metis in_set_conv_nth)
    with each[of k] len1 rows1 \<open>x \<in> set (buffer s1)\<close> show "length x = unat (MaxCols g) + 1 \<and> 0 \<in> set x"
      by simp
  qed
  have P: "0 < unat (Pages g)" using assms(1) by (simp add: valid_lcd_def word_le_nat_alt)
  have "console_inv g (s1\<lparr>dirty := True\<rparr>)"
    using len1 rows2 f P by (simp add: console_inv_def word_less_nat_alt)
  then show ?thesis using c f each by (simp add: clear_def)
qed

lemma draw_result_state:
  assumes "draw g fd fill s tr = Some (Inr (s', tr'))"
  shows "s' = s\<lparr>dirty := False\<rparr>"
proof (cases "dirty s")
  case True
  with assms show ?thesis by (auto simp: draw_def split: option.splits sum.splits)
next
  case False
  then have "s\<lparr>dirty := False\<rparr> = s" by (cases s) simp
  with False assms show ?thesis by (simp add: draw_def)
qed

lemma draw_loop_in_bounds:
  "\<forall>i. i < Pages g \<longrightarrow> 0 \<le> sint (row_index g s i) \<and> sint (row_index g s i) < uint (Pages g)
   \<Longrightarrow> draw_loop g fd fill s i tr \<noteq> Some (Inl e)"
proof (induction g fd fill s i tr rule: draw_loop.induct)
  case (1 g fd fill s i tr)
  show ?case
  proof (cases "i < Pages g")
    case True
    with "1.prems" have rng: "0 \<le> sint (row_index g s i) \<and> sint (row_index g s i) < uint (Pages g)"
      by simp
    obtain w tr1 where d: "drawText g fd 0 i (c_str (buffer s ! nat (sint (row_index g s i)))) tr = (w, tr1)"
      by (cases "drawText g fd 0 i (c_str (buffer s ! nat (sint (row_index g s i)))) tr")
    show ?thesis
    proof (cases "fill w (Cols g - w) i tr1")
      case None
      with True rng d show ?thesis by (subst draw_loop.simps) (simp add: Let_def)
    next
      case (Some tr2)
      from "1.IH"[OF True refl rng d[symmetric] Some "1.prems"]
      have "draw_loop g fd fill s (i + 1) tr2 \<noteq> Some (Inl e)" .
      with True rng d Some show ?thesis by (subst draw_loop.simps) (simp add: Let_def)
    qed
  next
    case False
    then show ?thesis by (subst draw_loop.simps) simp
  qed
qed

lemma reachable_inv:
  assumes "valid_lcd g" "reachable g fw fd fill s"
  shows "console_inv g s"
  using assms(2)
proof (induction rule: reachable.induct)
  case initial
  show ?case using assms(1) by (rule inv_init)
next
  case (by_write s ch s')
  with write_ch_inv[OF assms(1) by_write.IH, of fw ch] show ?case by simp
next
  case (by_clear s s')
  with clear_inv[OF assms(1) by_clear.IH] show ?case by simp
next
  case (by_draw s tr s' tr')
  from draw_result_state[OF by_draw.hyps(2)] by_draw.IH show ?case by (simp add: inv_dirty)
qed

lemma c_str_shorter: "0 \<in> set r \<Longrightarrow> length (c_str r) < length r"
  by (induction r) (auto simp: c_str_def)

lemma draw_loop_returns:
  "\<forall>i. i < Pages g \<longrightarrow> 0 \<le> sint (row_index g s i) \<and> sint (row_index g s i) < uint (Pages g)
   \<Longrightarrow> \<forall>a b p tr. fill a b p tr \<noteq> None
   \<Longrightarrow> \<exists>tr'. draw_loop g fd fill s i tr = Some (Inr tr')"
proof (induction g fd fill s i tr rule: draw_loop.induct)
  case (1 g fd fill s i tr)
  show ?case
  proof (cases "i < Pages g")
    case True
    with "1.prems" have rng: "0 \<le> sint (row_index g s i) \<and> sint (row_index g s i) < uint (Pages g)"
      by simp
    obtain w tr1 where d: "drawText g fd 0 i (c_str (buffer s ! nat (sint (row_index g s i)))) tr = (w, tr1)"
      by (cases "drawText g fd 0 i (c_str (buffer s ! nat (sint (row_index g s i)))) tr")
    from "1.prems"(2) obtain tr2 where f: "fill w (Cols g - w) i tr1 = Some tr2" by blast
    from "1.IH"[OF True refl rng d[symmetric] f "1.prems"]
    obtain tr' where "draw_loop g fd fill s (i + 1) tr2 = Some (Inr tr')" by blast
    with True rng d f show ?thesis by (subst draw_loop.simps) (simp add: Let_def)
  next
    case False
    then show ?thesis by (subst draw_loop.simps) simp
  qed
qed

lemma draw_returns:
  assumes "valid_lcd g" "console_inv g s" "\<forall>a b p tr. fill a b p tr \<noteq> None"
  shows "\<exists>tr'. draw g fd fill s tr = Some (Inr (s\<lparr>dirty := False\<rparr>, tr'))"
proof (cases "dirty s")
  case True
  have inv': "console_inv g (s\<lparr>dirty := False\<rparr>)" using assms(2) by (simp add: inv_dirty)
  have "\<forall>i. i < Pages g \<longrightarrow> 0 \<le> sint (row_index g (s\<lparr>dirty := False\<rparr>) i)
            \<and> sint (row_index g (s\<lparr>dirty := False\<rparr>) i) < uint (Pages g)"
    using row_index_value[OF assms(1) inv'] by blast
  from draw_loop_returns[OF this assms(3), where fd=fd and i=0 and tr=tr] True show ?thesis
    by (auto simp: draw_def)
next
  case False
  then have "s\<lparr>dirty := False\<rparr> = s" by (cases s) simp
  with False show ?thesis by (simp add: draw_def)
qed

lemma lcd_fillPage_returns: "\<forall>a b p tr. lcd_fillPage a b p tr \<noteq> None"
  by (simp add: lcd_fillPage_def)

text \<open>
  C9. On a valid display, every console state reachable from the initial state by \<open>write\<close>,
  \<open>clear\<close> and \<open>draw\<close> calls satisfies the invariant: the buffer has \<open>Pages\<close> rows of
  \<open>MaxCols + 1\<close> slots, each holding a terminator, so each text has at most \<open>MaxCols\<close>
  characters; \<open>row < Pages\<close>, \<open>col \<le> MaxCols\<close>, \<open>row \<le> filledRows \<le> Pages - 1\<close>. Every row
  index that \<open>draw\<close> computes lies in \<open>[0, Pages - 1]\<close> and is
  \<open>(row - filledRows + i) mod Pages\<close>; and no \<open>write\<close>, \<open>clear\<close> or \<open>draw\<close> from such a state
  accesses the buffer out of bounds.
\<close>

theorem reachable_console_invariant:
  assumes "valid_lcd g" and "reachable g fw fd fill s"
  shows "console_inv g s
       \<and> (\<forall>r \<in> set (buffer s). length (c_str r) \<le> unat (MaxCols g))
       \<and> (\<forall>i. i < Pages g \<longrightarrow>
              0 \<le> sint (row_index g s i) \<and> sint (row_index g s i) < uint (Pages g)
            \<and> sint (row_index g s i)
                = (uint (row s) - uint (filledRows s) + uint i) mod uint (Pages g))
       \<and> (\<forall>ch. \<exists>s'. write_ch g fw ch s = Inr s')
       \<and> (\<exists>s'. clear g s = Inr s')
       \<and> (\<forall>tr e. draw g fd fill s tr \<noteq> Some (Inl e))"
proof -
  have inv: "console_inv g s" using assms by (rule reachable_inv)
  have shorter: "\<forall>r \<in> set (buffer s). length (c_str r) \<le> unat (MaxCols g)"
  proof
    fix r assume "r \<in> set (buffer s)"
    with inv have "length r = unat (MaxCols g) + 1" "0 \<in> set r" by (simp_all add: console_inv_def)
    with c_str_shorter[of r] show "length (c_str r) \<le> unat (MaxCols g)" by simp
  qed
  have idx: "\<forall>i. i < Pages g \<longrightarrow>
              0 \<le> sint (row_index g s i) \<and> sint (row_index g s i) < uint (Pages g)
            \<and> sint (row_index g s i)
                = (uint (row s) - uint (filledRows s) + uint i) mod uint (Pages g)"
    using row_index_value[OF assms(1) inv] by blast
  have wr: "\<forall>ch. \<exists>s'. write_ch g fw ch s = Inr s'"
    using write_ch_inv[OF assms(1) inv, of fw] by blast
  have cl: "\<exists>s'. clear g s = Inr s'" using clear_inv[OF assms(1) inv] by blast
  have dr: "\<forall>tr e. draw g fd fill s tr \<noteq> Some (Inl e)"
  proof (intro allI)
    fix tr e
    have inv': "console_inv g (s\<lparr>dirty := False\<rparr>)" using inv by (simp add: inv_dirty)
    have "\<forall>i. i < Pages g \<longrightarrow> 0 \<le> sint (row_index g (s\<lparr>dirty := False\<rparr>) i)
            \<and> sint (row_index g (s\<lparr>dirty := False\<rparr>) i) < uint (Pages g)"
      using row_index_value[OF assms(1) inv'] by blast
    from draw_loop_in_bounds[OF this, where fd=fd and fill=fill and i=0 and tr=tr and e=e]
    show "draw g fd fill s tr \<noteq> Some (Inl e)"
      by (auto simp: draw_def split: option.splits sum.splits)
  qed
  from inv shorter idx wr cl dr show ?thesis by blast
qed

theorem reachable_console_invariant_witness:
  "valid_lcd lcd128 \<and> reachable lcd128 font3 draw4 lcd_fillPage drew_a_lf
   \<and> console_inv lcd128 drew_a_lf
   \<and> row drew_a_lf = 1 \<and> filledRows drew_a_lf = 1 \<and> col drew_a_lf = 0
   \<and> c_str (buffer drew_a_lf ! 0) = [97]
   \<and> sint (row_index lcd128 drew_a_lf 7) = 7"
proof -
  have v: "valid_lcd lcd128" by code_simp
  have w1: "write_ch lcd128 font3 97 (Display8Console lcd128) = Inr wrote_a" by code_simp
  have w2: "write_ch lcd128 font3 10 wrote_a = Inr wrote_a_lf" by code_simp
  have i2: "console_inv lcd128 wrote_a_lf" by code_simp
  from draw_returns[OF v i2 lcd_fillPage_returns, where fd=draw4 and tr="[]"]
  obtain tr' where d: "draw lcd128 draw4 lcd_fillPage wrote_a_lf [] = Some (Inr (drew_a_lf, tr'))"
    by (auto simp: drew_a_lf_def)
  have r: "reachable lcd128 font3 draw4 lcd_fillPage drew_a_lf"
    using reachable.initial[of lcd128 font3 draw4 lcd_fillPage] w1 w2 d
    by (meson reachable.by_write reachable.by_draw)
  have ev: "row drew_a_lf = 1 \<and> filledRows drew_a_lf = 1 \<and> col drew_a_lf = 0
     \<and> c_str (buffer drew_a_lf ! 0) = [97] \<and> sint (row_index lcd128 drew_a_lf 7) = 7"
    by code_simp
  from reachable_console_invariant[OF v r] v r ev show ?thesis by blast
qed

section \<open>Autoscroll console: the circular buffer against the log\<close>

lemma c_str_put:
  assumes "c \<le> length (c_str xs)" "c + 1 < length xs" "ch \<noteq> 0"
  shows "c_str (xs[c := ch, c + 1 := 0]) = take c (c_str xs) @ [ch]"
proof -
  let ?P = "\<lambda>x::8 word. x \<noteq> 0"
  have t: "c_str xs = take (length (c_str xs)) xs"
    unfolding c_str_def by (rule takeWhile_eq_take)
  have tk: "take c (c_str xs) = take c xs"
    by (subst t) (simp add: assms(1) min_absorb2)
  have allP: "\<forall>x \<in> set (take c xs). ?P x"
  proof
    fix x assume "x \<in> set (take c xs)"
    then have "x \<in> set (c_str xs)" using tk by (metis in_set_takeD)
    then show "?P x" unfolding c_str_def by (rule set_takeWhileD[THEN conjunct2])
  qed
  have "xs[c := ch] = take c xs @ ch # drop (Suc c) xs"
    using assms(2) by (simp add: upd_conv_take_nth_drop)
  moreover have "(take c xs @ ch # drop (Suc c) xs)[c + 1 := 0]
      = take c xs @ ch # (drop (Suc c) xs)[0 := 0]"
    using assms(2) by (simp add: list_update_append)
  moreover have "drop (Suc c) xs \<noteq> []" using assms(2) by simp
  then obtain rest where "(drop (Suc c) xs)[0 := 0] = 0 # rest"
    by (cases "drop (Suc c) xs") auto
  ultimately have "xs[c := ch, c + 1 := 0] = take c xs @ ch # 0 # rest" by simp
  then have "c_str (xs[c := ch, c + 1 := 0]) = take c xs @ [ch]"
    using allP assms(3) by (simp add: c_str_def takeWhile_append2)
  with tk show ?thesis by simp
qed

lemma mod_distinct:
  assumes "j < m" "m < j + P"
  shows "j mod P \<noteq> m mod (P::nat)"
proof
  assume "j mod P = m mod P"
  then have "P dvd m - j" using assms(1) by (metis mod_eq_dvd_iff_nat less_imp_le)
  moreover have "0 < m - j" "m - j < P" using assms by simp_all
  ultimately show False by (meson dvd_imp_le not_le)
qed

lemma c_str_zeros: "c_str (replicate n 0) = []"
  by (cases n) (simp_all add: c_str_def)

lemma sim_init: "valid_lcd g \<Longrightarrow> sim g log_init (Display8Console g)"
proof -
  assume v: "valid_lcd g"
  have "console_inv g (Display8Console g)" using v by (rule inv_init)
  then show ?thesis
    by (simp add: sim_def log_init_def Display8Console_def c_str_def)
qed

lemma sim_lf:
  assumes "sim g h s" "lf g s = Inr s'"
  shows "sim g (log_lf h) s'"
proof -
  let ?P = "unat (Pages g)"
  let ?n = "length (texts h)"
  from assms(1) have inv: "console_inv g s" and ne: "texts h \<noteq> []"
    and r: "unat (row s) = (?n - 1) mod ?P"
    and f: "unat (filledRows s) = min (?n - 1) (?P - 1)"
    and win: "\<forall>j < ?n. ?n \<le> j + ?P \<longrightarrow> c_str (buffer s ! (j mod ?P)) = texts h ! j"
    and unused: "\<forall>k. ?n \<le> k \<longrightarrow> k < ?P \<longrightarrow> c_str (buffer s ! k) = []"
    by (simp_all add: sim_def)
  from inv have a: "row s < Pages g" "unat (filledRows s) + 1 \<le> unat (Pages g)"
    and len: "length (buffer s) = ?P"
    and rows: "\<forall>x \<in> set (buffer s). length x = unat (MaxCols g) + 1 \<and> 0 \<in> set x"
    by (simp_all add: console_inv_def)
  have n: "0 < ?n" using ne by simp
  have P: "0 < ?P" using a(1) by (simp add: word_less_nat_alt)
  from lf_result[OF a] assms(2) obtain r' f' where
    s': "s' = s\<lparr>col := 0, rowWidth := 0, row := r', filledRows := f',
             buffer := (buffer s)[unat r' := (buffer s ! unat r')[0 := 0]]\<rparr>"
    and r': "unat r' = (unat (row s) + 1) mod ?P"
    and f': "unat f' = min (unat (filledRows s) + 1) (?P - 1)"
    and lt: "r' < Pages g" by auto
  have inv': "console_inv g s'" using inv assms(2) by (rule inv_lf)
  have r'n: "unat r' = ?n mod ?P"
  proof -
    have "unat r' = ((?n - 1) mod ?P + 1) mod ?P" using r' r by simp
    also have "\<dots> = (?n - 1 + 1) mod ?P" by (simp add: mod_Suc_eq)
    finally show ?thesis using n by simp
  qed
  have f'n: "unat f' = min ?n (?P - 1)" using f' f n P by (cases "?n") (auto simp: min_def)
  have in_range: "unat r' < length (buffer s)" using lt len by (simp add: word_less_nat_alt)
  then have "buffer s ! unat r' \<in> set (buffer s)" by simp
  with rows have new_ne: "buffer s ! unat r' \<noteq> []" by fastforce
  have new_row: "c_str (buffer s' ! unat r') = []"
    using in_range new_ne by (simp add: s' c_str_terminated_at_0)
  have other: "buffer s' ! k = buffer s ! k" if "k \<noteq> unat r'" for k
    using that by (simp add: s')
  have win': "\<forall>j < ?n + 1. ?n + 1 \<le> j + ?P \<longrightarrow>
      c_str (buffer s' ! (j mod ?P)) = (texts h @ [[]]) ! j"
  proof (intro allI impI)
    fix j assume j: "j < ?n + 1" "?n + 1 \<le> j + ?P"
    show "c_str (buffer s' ! (j mod ?P)) = (texts h @ [[]]) ! j"
    proof (cases "j = ?n")
      case True
      then show ?thesis using new_row r'n by simp
    next
      case False
      with j have jl: "j < ?n" by simp
      with j have "j mod ?P \<noteq> ?n mod ?P" by (intro mod_distinct) simp_all
      then have "buffer s' ! (j mod ?P) = buffer s ! (j mod ?P)" using other r'n by simp
      moreover have "c_str (buffer s ! (j mod ?P)) = texts h ! j" using win jl j by simp
      ultimately show ?thesis using jl by (simp add: nth_append)
    qed
  qed
  have unused': "\<forall>k. ?n + 1 \<le> k \<longrightarrow> k < ?P \<longrightarrow> c_str (buffer s' ! k) = []"
  proof (intro allI impI)
    fix k assume k: "?n + 1 \<le> k" "k < ?P"
    then have "?n mod ?P = ?n" by simp
    with k r'n have "k \<noteq> unat r'" by simp
    then have "buffer s' ! k = buffer s ! k" by (rule other)
    with unused k show "c_str (buffer s' ! k) = []" by simp
  qed
  show ?thesis
    using inv' r'n f'n win' unused'
    by (simp add: sim_def log_lf_def s')
qed

lemma sim_place:
  assumes "sim g h s" "col s < MaxCols g" "ch \<noteq> 0"
  shows "sim g (log_place ch w h) (place ch w s)"
proof -
  let ?P = "unat (Pages g)"
  let ?n = "length (texts h)"
  let ?r = "unat (row s)"
  let ?c = "unat (col s)"
  from assms(1) have inv: "console_inv g s" and ne: "texts h \<noteq> []"
    and r: "?r = (?n - 1) mod ?P"
    and f: "unat (filledRows s) = min (?n - 1) (?P - 1)"
    and cw: "col s = lcol h" "rowWidth s = lwidth h"
    and cl: "?c \<le> length (last (texts h))"
    and win: "\<forall>j < ?n. ?n \<le> j + ?P \<longrightarrow> c_str (buffer s ! (j mod ?P)) = texts h ! j"
    and unused: "\<forall>k. ?n \<le> k \<longrightarrow> k < ?P \<longrightarrow> c_str (buffer s ! k) = []"
    by (auto simp: sim_def)
  from inv have rlt: "row s < Pages g"
    and len: "length (buffer s) = ?P"
    and rows: "\<forall>x \<in> set (buffer s). length x = unat (MaxCols g) + 1 \<and> 0 \<in> set x"
    by (simp_all add: console_inv_def)
  have n: "0 < ?n" using ne by simp
  have P: "0 < ?P" using rlt by (simp add: word_less_nat_alt)
  have inv': "console_inv g (place ch w s)" using inv assms(2) by (rule inv_place)
  have c: "?c < unat (MaxCols g)" using assms(2) by (simp add: word_less_nat_alt)
  have "unat (MaxCols g) \<le> 255" by (rule u8_bound)
  with c have u: "unat (col s + 1) = ?c + 1" by (intro u8_inc) simp
  have rin: "?r < length (buffer s)" using rlt len by (simp add: word_less_nat_alt)
  then have "buffer s ! ?r \<in> set (buffer s)" by simp
  with rows have lrow: "length (buffer s ! ?r) = unat (MaxCols g) + 1" by simp
  have cur: "c_str (buffer s ! ?r) = last (texts h)"
  proof -
    have "?n - 1 < ?n" "?n \<le> ?n - 1 + ?P" using n P by simp_all
    with win have "c_str (buffer s ! ((?n - 1) mod ?P)) = texts h ! (?n - 1)" by blast
    then show ?thesis using r ne by (simp add: last_conv_nth)
  qed
  let ?y = "(buffer s ! ?r)[?c := ch, ?c + 1 := 0]"
  have newtext: "c_str ?y = take ?c (last (texts h)) @ [ch]"
    using c_str_put[of ?c "buffer s ! ?r" ch] cl cur lrow c assms(3) by simp
  have buf': "buffer (place ch w s) = (buffer s)[?r := ?y]" by (simp add: place_def)
  let ?ts = "butlast (texts h) @ [take ?c (last (texts h)) @ [ch]]"
  have lts: "length ?ts = ?n" using n by simp
  have win': "\<forall>j < ?n. ?n \<le> j + ?P \<longrightarrow> c_str (buffer (place ch w s) ! (j mod ?P)) = ?ts ! j"
  proof (intro allI impI)
    fix j assume j: "j < ?n" "?n \<le> j + ?P"
    show "c_str (buffer (place ch w s) ! (j mod ?P)) = ?ts ! j"
    proof (cases "j = ?n - 1")
      case True
      then have "j mod ?P = ?r" using r by simp
      moreover have "?ts ! j = take ?c (last (texts h)) @ [ch]"
        using True by (simp add: nth_append)
      ultimately show ?thesis using newtext rin by (simp add: buf')
    next
      case False
      with j have jl: "j < ?n - 1" by simp
      with j have "j mod ?P \<noteq> (?n - 1) mod ?P" by (intro mod_distinct) simp_all
      then have "buffer (place ch w s) ! (j mod ?P) = buffer s ! (j mod ?P)"
        using r by (simp add: buf')
      moreover have "c_str (buffer s ! (j mod ?P)) = texts h ! j" using win j by simp
      moreover have "?ts ! j = texts h ! j" using jl by (simp add: nth_append nth_butlast)
      ultimately show ?thesis by simp
    qed
  qed
  have unused': "\<forall>k. ?n \<le> k \<longrightarrow> k < ?P \<longrightarrow> c_str (buffer (place ch w s) ! k) = []"
  proof (intro allI impI)
    fix k assume k: "?n \<le> k" "k < ?P"
    then have "(?n - 1) mod ?P = ?n - 1" using n by simp
    with k r n have "k \<noteq> ?r" by arith
    then have "buffer (place ch w s) ! k = buffer s ! k" by (simp add: buf')
    with unused k show "c_str (buffer (place ch w s) ! k) = []" by simp
  qed
  have cl': "unat (col s + 1) \<le> length (last ?ts)" using u cl by simp
  have fields: "row (place ch w s) = row s" "filledRows (place ch w s) = filledRows s"
    "col (place ch w s) = col s + 1" "rowWidth (place ch w s) = rowWidth s + (w + 1)"
    by (simp_all add: place_def)
  have lfields: "texts (log_place ch w h) = ?ts" "lcol (log_place ch w h) = col s + 1"
    "lwidth (log_place ch w h) = rowWidth s + (w + 1)"
    using cw by (simp_all add: log_place_def)
  show ?thesis
    unfolding sim_def fields lfields lts
    using inv' r f win' unused' cl' n by simp
qed

lemma sim_dirty: "sim g h (s\<lparr>dirty := d\<rparr>) = sim g h s"
  by (simp add: sim_def console_inv_def)

lemma printable_nonzero: "printable ch \<Longrightarrow> ch \<noteq> 0"
  by (auto simp: printable_def)

lemma sim_write:
  assumes "valid_lcd g" "sim g h s" "write_ch g fw ch s = Inr s'"
  shows "sim g (log_write g fw ch h) s'"
proof (cases "printable ch")
  case True
  from assms(2) have inv: "console_inv g s" and cw: "col s = lcol h" "rowWidth s = lwidth h"
    by (auto simp: sim_def)
  note pr = write_ch_printable[OF assms(1) inv True, of fw]
  have nz: "ch \<noteq> 0" using True by (rule printable_nonzero)
  show ?thesis
  proof (cases "overflows g (fw ch) s")
    case ov: True
    with pr obtain s1 where s1: "lf g s = Inr s1"
      "write_ch g fw ch s = Inr (place ch (fw ch) s1)" "col s1 = 0" by blast
    have "sim g (log_lf h) s1" using assms(2) s1(1) by (rule sim_lf)
    moreover have "col s1 < MaxCols g" using s1(3) MaxCols_pos[OF assms(1)] by simp
    ultimately have "sim g (log_place ch (fw ch) (log_lf h)) (place ch (fw ch) s1)"
      using nz by (rule sim_place)
    moreover have "log_write g fw ch h = log_place ch (fw ch) (log_lf h)"
      using True ov cw by (simp add: log_write_def Let_def overflows_iff)
    ultimately show ?thesis using s1(2) assms(3) by simp
  next
    case nov: False
    with pr have w: "write_ch g fw ch s = Inr (place ch (fw ch) s)" by simp
    from nov have "col s < MaxCols g" by (simp add: overflows_iff not_le)
    with assms(2) have "sim g (log_place ch (fw ch) h) (place ch (fw ch) s)"
      using nz by (rule sim_place)
    moreover have "log_write g fw ch h = log_place ch (fw ch) h"
      using True nov cw by (simp add: log_write_def Let_def overflows_iff)
    ultimately show ?thesis using w assms(3) by simp
  qed
next
  case False
  show ?thesis
  proof (cases "ch = 10")
    case True
    with False assms(3) obtain s1 where l: "lf g s = Inr s1" and s': "s' = s1\<lparr>dirty := True\<rparr>"
      by (auto simp: write_ch_def split: sum.splits)
    have "sim g (log_lf h) s1" using assms(2) l by (rule sim_lf)
    then show ?thesis using False True s' by (simp add: log_write_def sim_dirty)
  next
    case nl: False
    show ?thesis
    proof (cases "ch = 13")
      case True
      with False nl assms(3) have s': "s' = (cr s)\<lparr>dirty := True\<rparr>" by (simp add: write_ch_def)
      have "sim g (h\<lparr>lcol := 0, lwidth := 0\<rparr>) (cr s)"
        using assms(2) by (simp add: sim_def cr_def console_inv_def)
      then show ?thesis using False nl True s' by (simp add: log_write_def sim_dirty)
    next
      case ncr: False
      with False nl assms(3) have "s' = s\<lparr>dirty := True\<rparr>" by (simp add: write_ch_def)
      then show ?thesis using False nl ncr assms(2) by (simp add: log_write_def sim_dirty)
    qed
  qed
qed

lemma sim_all:
  assumes "valid_lcd g"
  shows "sim g h s \<Longrightarrow> \<exists>s'. write_all g fw chs s = Inr s' \<and> sim g (log_all g fw chs h) s'"
proof (induction chs arbitrary: h s)
  case Nil
  then show ?case by simp
next
  case (Cons ch chs)
  from Cons.prems have "console_inv g s" by (simp add: sim_def)
  from write_ch_inv[OF assms this, of fw ch] obtain s1 where w: "write_ch g fw ch s = Inr s1"
    by blast
  have "sim g (log_write g fw ch h) s1" using assms Cons.prems w by (rule sim_write)
  from Cons.IH[OF this] w show ?case by simp
qed

lemma write_ch_dirty: "write_ch g fw ch s = Inr s' \<Longrightarrow> dirty s'"
  by (auto simp: write_ch_def Let_def store_def split: if_splits sum.splits)

lemma write_all_dirty:
  "write_all g fw chs s = Inr s' \<Longrightarrow> chs \<noteq> [] \<or> dirty s \<Longrightarrow> dirty s'"
proof (induction chs arbitrary: s)
  case Nil
  then show ?case by simp
next
  case (Cons ch chs)
  then obtain s1 where w: "write_ch g fw ch s = Inr s1" "write_all g fw chs s1 = Inr s'"
    by (auto split: sum.splits)
  from w(1) have "dirty s1" by (rule write_ch_dirty)
  with Cons.IH[OF w(2)] show ?case by simp
qed

text \<open>The row index of \<open>_draw\<close> as a natural number.\<close>

lemma row_index_nat:
  assumes "valid_lcd g" "console_inv g s" "i < Pages g"
  shows "nat (sint (row_index g s i))
         = (unat (row s) + unat (Pages g) - unat (filledRows s) + unat i) mod unat (Pages g)"
proof -
  let ?P = "unat (Pages g)"
  from assms(2) have f: "unat (filledRows s) + 1 \<le> ?P" by (simp add: console_inv_def)
  have "sint (row_index g s i)
        = (uint (row s) - uint (filledRows s) + uint i) mod uint (Pages g)"
    using assms by (rule row_index_value(1))
  also have "\<dots> = (uint (row s) - uint (filledRows s) + uint i + uint (Pages g)) mod uint (Pages g)"
    by simp
  also have "uint (row s) - uint (filledRows s) + uint i + uint (Pages g)
        = int (unat (row s) + ?P - unat (filledRows s) + unat i)"
    using f unfolding uint_nat by linarith
  also have "int (unat (row s) + ?P - unat (filledRows s) + unat i) mod uint (Pages g)
        = int ((unat (row s) + ?P - unat (filledRows s) + unat i) mod ?P)"
    unfolding uint_nat by (simp add: zmod_int)
  finally show ?thesis by simp
qed

lemma newest_nth:
  assumes "i < n"
  shows "newest n ts ! i =
     (if n \<le> length ts then ts ! (length ts - n + i) else if i < length ts then ts ! i else [])"
  using assms by (auto simp: newest_def nth_append)

lemma shown_newest:
  assumes "valid_lcd g" "sim g h s" "i < Pages g"
  shows "c_str (buffer s ! nat (sint (row_index g s i))) = newest (unat (Pages g)) (texts h) ! unat i"
proof -
  let ?P = "unat (Pages g)"
  let ?n = "length (texts h)"
  let ?i = "unat i"
  from assms(2) have inv: "console_inv g s" and ne: "texts h \<noteq> []"
    and r: "unat (row s) = (?n - 1) mod ?P"
    and f: "unat (filledRows s) = min (?n - 1) (?P - 1)"
    and win: "\<forall>j < ?n. ?n \<le> j + ?P \<longrightarrow> c_str (buffer s ! (j mod ?P)) = texts h ! j"
    and unused: "\<forall>k. ?n \<le> k \<longrightarrow> k < ?P \<longrightarrow> c_str (buffer s ! k) = []"
    by (auto simp: sim_def)
  have n: "0 < ?n" using ne by simp
  have i: "?i < ?P" using assms(3) by (simp add: word_less_nat_alt)
  note idx = row_index_nat[OF assms(1) inv assms(3)]
  show ?thesis
  proof (cases "?P \<le> ?n")
    case True
    then have f': "unat (filledRows s) = ?P - 1" using f by simp
    have "(unat (row s) + ?P - unat (filledRows s) + ?i) mod ?P
          = ((?n - 1) mod ?P + (1 + ?i)) mod ?P"
      using r f' i by simp
    also have "\<dots> = (?n - 1 + (1 + ?i)) mod ?P" by (rule mod_add_left_eq)
    also have "\<dots> = (?n - ?P + ?i + ?P) mod ?P"
    proof -
      have "?n - 1 + (1 + ?i) = ?n - ?P + ?i + ?P" using True n by arith
      then show ?thesis by (simp only:)
    qed
    also have "\<dots> = (?n - ?P + ?i) mod ?P" by simp
    finally have k: "nat (sint (row_index g s i)) = (?n - ?P + ?i) mod ?P" using idx by simp
    have "?n - ?P + ?i < ?n" "?n \<le> ?n - ?P + ?i + ?P" using True i by simp_all
    with win have "c_str (buffer s ! ((?n - ?P + ?i) mod ?P)) = texts h ! (?n - ?P + ?i)" by blast
    then show ?thesis using k True i by (simp add: newest_nth)
  next
    case False
    then have lt: "?n < ?P" by simp
    then have f': "unat (filledRows s) = ?n - 1" and r': "unat (row s) = ?n - 1"
      using f r by simp_all
    have "(unat (row s) + ?P - unat (filledRows s) + ?i) mod ?P = (?i + ?P) mod ?P"
      using r' f' lt by simp
    also have "\<dots> = ?i" using i by simp
    finally have k: "nat (sint (row_index g s i)) = ?i" using idx by simp
    show ?thesis
    proof (cases "?i < ?n")
      case True
      then have "?n \<le> ?i + ?P" using lt by simp
      with win True have "c_str (buffer s ! (?i mod ?P)) = texts h ! ?i" by blast
      then show ?thesis using k lt True i by (simp add: newest_nth)
    next
      case ge: False
      with unused i have "c_str (buffer s ! ?i) = []" by simp
      then show ?thesis using k lt ge i by (simp add: newest_nth)
    qed
  qed
qed

lemma draw_loop_rows:
  "\<forall>i. i < Pages g \<longrightarrow> 0 \<le> sint (row_index g s i) \<and> sint (row_index g s i) < uint (Pages g)
   \<Longrightarrow> \<forall>i. i < Pages g \<longrightarrow> c_str (buffer s ! nat (sint (row_index g s i))) = ts ! unat i
   \<Longrightarrow> length ts = unat (Pages g) \<Longrightarrow> i \<le> Pages g
   \<Longrightarrow> draw_loop g fd fill s i tr = map_option Inr (draw_rows g fd fill i (drop (unat i) ts) tr)"
proof (induction g fd fill s i tr rule: draw_loop.induct)
  case (1 g fd fill s i tr)
  show ?case
  proof (cases "i < Pages g")
    case True
    with "1.prems" have rng: "0 \<le> sint (row_index g s i) \<and> sint (row_index g s i) < uint (Pages g)"
      and tx: "c_str (buffer s ! nat (sint (row_index g s i))) = ts ! unat i"
      by simp_all
    have ui: "unat i < unat (Pages g)" using True by (simp add: word_less_nat_alt)
    have "unat (Pages g) \<le> 255" by (rule u8_bound)
    with ui have u: "unat (i + 1) = unat i + 1" by (intro u8_inc) simp
    have le1: "i + 1 \<le> Pages g" using ui u by (simp add: word_le_nat_alt)
    have dr: "drop (unat i) ts = ts ! unat i # drop (unat (i + 1)) ts"
      using ui "1.prems"(3) u by (simp add: Cons_nth_drop_Suc)
    obtain w tr1 where d: "drawText g fd 0 i (ts ! unat i) tr = (w, tr1)"
      by (cases "drawText g fd 0 i (ts ! unat i) tr")
    show ?thesis
    proof (cases "fill w (Cols g - w) i tr1")
      case None
      with True rng tx d dr show ?thesis by (subst draw_loop.simps) (simp add: Let_def)
    next
      case (Some tr2)
      from d tx have d': "(w, tr1) = drawText g fd 0 i (c_str (buffer s ! nat (sint (row_index g s i)))) tr"
        by simp
      from "1.IH"[OF True refl rng d' Some "1.prems"(1,2,3) le1]
      have "draw_loop g fd fill s (i + 1) tr2
            = map_option Inr (draw_rows g fd fill (i + 1) (drop (unat (i + 1)) ts) tr2)" .
      with True rng tx d dr Some show ?thesis by (subst draw_loop.simps) (simp add: Let_def)
    qed
  next
    case False
    with "1.prems"(4) have "i = Pages g" by simp
    with False "1.prems"(3) show ?thesis by (subst draw_loop.simps) simp
  qed
qed

lemma length_newest: "length (newest n ts) = n"
  by (simp add: newest_def)

lemma draw_by_log:
  assumes "valid_lcd g" "sim g h s" "dirty s"
  shows "draw g fd fill s tr
         = map_option (\<lambda>tr'. Inr (s\<lparr>dirty := False\<rparr>, tr'))
             (draw_rows g fd fill 0 (newest (unat (Pages g)) (texts h)) tr)"
proof -
  let ?ts = "newest (unat (Pages g)) (texts h)"
  let ?s = "s\<lparr>dirty := False\<rparr>"
  have sim': "sim g h ?s" using assms(2) by (simp add: sim_dirty)
  then have inv': "console_inv g ?s" by (simp add: sim_def)
  have a: "\<forall>i. i < Pages g \<longrightarrow> 0 \<le> sint (row_index g ?s i) \<and> sint (row_index g ?s i) < uint (Pages g)"
    using row_index_value[OF assms(1) inv'] by blast
  have b: "\<forall>i. i < Pages g \<longrightarrow> c_str (buffer ?s ! nat (sint (row_index g ?s i))) = ?ts ! unat i"
    using shown_newest[OF assms(1) sim'] by blast
  have "draw_loop g fd fill ?s 0 tr = map_option Inr (draw_rows g fd fill 0 (drop (unat (0::8 word)) ?ts) tr)"
    using a b by (rule draw_loop_rows) (simp_all add: length_newest)
  then show ?thesis using assms(3)
    by (cases "draw_rows g fd fill 0 ?ts tr") (simp_all add: draw_def)
qed

text \<open>
  C2. On a valid display, after any sequence of writes from the initial console, the row
  index that \<open>draw\<close> computes for physical row \<open>i\<close> is
  \<open>(row - filledRows + i) mod Pages\<close>, and the text of that buffer row is the \<open>i\<close>-th of the most
  recent \<open>Pages\<close> logical rows, oldest first (of all rows, followed by empty rows, when fewer
  than \<open>Pages\<close> were written; with more than \<open>Pages\<close> line-feeds there are more than \<open>Pages\<close>
  logical rows and the older ones are no longer shown). So \<open>draw\<close> makes exactly the port calls
  of drawing these rows top to bottom.
\<close>

theorem draw_shows_newest_rows:
  assumes "valid_lcd g"
  shows "\<exists>s. write_all g fw chs (Display8Console g) = Inr s
     \<and> (\<forall>i. i < Pages g \<longrightarrow>
           0 \<le> sint (row_index g s i) \<and> sint (row_index g s i) < uint (Pages g)
         \<and> sint (row_index g s i)
             = (uint (row s) - uint (filledRows s) + uint i) mod uint (Pages g)
         \<and> c_str (buffer s ! nat (sint (row_index g s i)))
             = newest (unat (Pages g)) (texts (log_all g fw chs log_init)) ! unat i)
     \<and> (chs \<noteq> [] \<longrightarrow>
           draw g fd fill s tr
           = map_option (\<lambda>tr'. Inr (s\<lparr>dirty := False\<rparr>, tr'))
               (draw_rows g fd fill 0 (newest (unat (Pages g)) (texts (log_all g fw chs log_init))) tr))"
proof -
  let ?h = "log_all g fw chs log_init"
  let ?ts = "newest (unat (Pages g)) (texts ?h)"
  from sim_all[OF assms sim_init[OF assms], of fw chs]
  obtain s where w: "write_all g fw chs (Display8Console g) = Inr s" and sim: "sim g ?h s"
    by blast
  from sim have inv: "console_inv g s" by (simp add: sim_def)
  have rows: "\<forall>i. i < Pages g \<longrightarrow>
           0 \<le> sint (row_index g s i) \<and> sint (row_index g s i) < uint (Pages g)
         \<and> sint (row_index g s i)
             = (uint (row s) - uint (filledRows s) + uint i) mod uint (Pages g)
         \<and> c_str (buffer s ! nat (sint (row_index g s i))) = ?ts ! unat i"
    using row_index_value[OF assms inv] shown_newest[OF assms sim] by blast
  have dr: "draw g fd fill s tr = map_option (\<lambda>tr'. Inr (s\<lparr>dirty := False\<rparr>, tr')) (draw_rows g fd fill 0 ?ts tr)"
    if "chs \<noteq> []"
  proof -
    have "dirty s" using w that by (auto dest: write_all_dirty)
    with assms sim show ?thesis by (rule draw_by_log)
  qed
  from w rows dr show ?thesis by blast
qed

theorem draw_shows_newest_rows_witness:
  "valid_lcd lcd128
   \<and> write_all lcd128 font3 ten_lines (Display8Console lcd128) = Inr after_ten_lines
   \<and> texts (log_all lcd128 font3 ten_lines log_init)
       = [[48], [49], [50], [51], [52], [53], [54], [55], [56], [57], []]
   \<and> row after_ten_lines = 2 \<and> filledRows after_ten_lines = 7
   \<and> map (\<lambda>i. nat (sint (row_index lcd128 after_ten_lines i))) [0, 1, 2, 3, 4, 5, 6, 7]
       = [3, 4, 5, 6, 7, 0, 1, 2]
   \<and> map (\<lambda>i. c_str (buffer after_ten_lines ! nat (sint (row_index lcd128 after_ten_lines i))))
        [0, 1, 2, 3, 4, 5, 6, 7]
       = [[51], [52], [53], [54], [55], [56], [57], []]"
proof -
  have v: "valid_lcd lcd128" by code_simp
  from draw_shows_newest_rows[OF v, where fw=font3 and chs=ten_lines and fd=draw4
      and fill=lcd_fillPage and tr="[]"]
  obtain s where "write_all lcd128 font3 ten_lines (Display8Console lcd128) = Inr s" by blast
  then have w: "write_all lcd128 font3 ten_lines (Display8Console lcd128) = Inr after_ten_lines"
    by (simp add: after_ten_lines_def)
  have ev: "texts (log_all lcd128 font3 ten_lines log_init)
       = [[48], [49], [50], [51], [52], [53], [54], [55], [56], [57], []]
   \<and> row after_ten_lines = 2 \<and> filledRows after_ten_lines = 7
   \<and> map (\<lambda>i. nat (sint (row_index lcd128 after_ten_lines i))) [0, 1, 2, 3, 4, 5, 6, 7]
       = [3, 4, 5, 6, 7, 0, 1, 2]
   \<and> map (\<lambda>i. c_str (buffer after_ten_lines ! nat (sint (row_index lcd128 after_ten_lines i))))
        [0, 1, 2, 3, 4, 5, 6, 7]
       = [[51], [52], [53], [54], [55], [56], [57], []]" by code_simp
  from v w ev show ?thesis by blast
qed

section \<open>Autoscroll console: what draw leaves on the display\<close>

lemma fold_writes:
  "fold port_step (map WritePageByte bs) (Some (p, c), px)
   = (Some (p, c + length bs),
      (\<lambda>(p', c'). if p' = p \<and> c \<le> c' \<and> c' < c + length bs then bs ! (c' - c) else px (p', c')))"
proof (induction bs arbitrary: c px)
  case Nil
  show ?case by (auto simp: fun_eq_iff)
next
  case (Cons b bs)
  show ?case
    by (auto simp: Cons.IH fun_eq_iff nth_Cons' Suc_diff_le)
qed

lemma fold_block: "fold port_step (block c p bs) (cur, px) = (None, paint c p bs px)"
  by (simp add: block_def fold_writes paint_def)

lemma display_after_block: "display_after (block c p bs @ tr) px = display_after tr (paint c p bs px)"
  by (simp add: display_after_def fold_block)

lemma display_after_last: "display_after (block c p bs) px = paint c p bs px"
  by (simp add: display_after_def fold_block)

lemma paints_only_block: "paints_only (block c p bs) (unat p) (unat c) (length bs)"
  by (auto simp: paints_only_def fold_block paint_def)

lemma draw4_in_place: "in_place draw4"
proof -
  have "\<exists>X. draw4 c p m t tr = (fst (draw4 c p m t []), tr @ X)
        \<and> fst (draw4 c p m t []) \<le> m
        \<and> paints_only X (unat p) (unat c) (unat (fst (draw4 c p m t [])))" for c p m t tr
  proof -
    let ?w = "if width4 t \<le> m then width4 t else m"
    have "paints_only (block c p (replicate (unat ?w) 255)) (unat p) (unat c) (unat ?w)"
      using paints_only_block[of c p "replicate (unat ?w) 255"] by simp
    then show ?thesis by (auto simp: draw4_def Let_def)
  qed
  then show ?thesis unfolding in_place_def by blast
qed

lemma draw_rows_pixels:
  assumes "in_place fd"
  shows "unat i + length ts \<le> 255 \<Longrightarrow>
     \<exists>X. draw_rows g fd lcd_fillPage i ts tr = Some (tr @ X)
        \<and> (\<forall>cur px q d.
              (q < unat i \<longrightarrow> snd (fold port_step X (cur, px)) (q, d) = px (q, d))
            \<and> (unat i \<le> q \<and> q < unat i + length ts
                 \<and> unat (fst (fd 0 (of_nat q) (Cols g) (ts ! (q - unat i)) [])) \<le> d
                 \<and> d < unat (Cols g)
                \<longrightarrow> snd (fold port_step X (cur, px)) (q, d) = 0))"
proof (induction ts arbitrary: i tr)
  case Nil
  show ?case by auto
next
  case (Cons t ts)
  let ?w = "fst (fd 0 i (Cols g) t [])"
  have u: "unat (i + 1) = unat i + 1" using Cons.prems by (intro u8_inc) simp
  from assms obtain Xt where
    f: "fd 0 i (Cols g) t tr = (?w, tr @ Xt)" and wle: "?w \<le> Cols g"
    and po: "paints_only Xt (unat i) (unat (0::8 word)) (unat ?w)"
    unfolding in_place_def by blast
  let ?n = "unat (Cols g - ?w)"
  let ?B = "block ?w i (replicate ?n 0)"
  have n: "?n = unat (Cols g) - unat ?w" using wle by (simp add: unat_sub)
  have wn: "unat ?w \<le> unat (Cols g)" using wle by (simp add: word_le_nat_alt)
  have d: "drawText g fd 0 i t tr = (?w, tr @ Xt)" using f by (simp add: drawText_def)
  have fl: "lcd_fillPage ?w (Cols g - ?w) i (tr @ Xt) = Some ((tr @ Xt) @ ?B)"
    by (simp add: lcd_fillPage_def)
  from Cons.prems u have "unat (i + 1) + length ts \<le> 255" by simp
  from Cons.IH[OF this, of "(tr @ Xt) @ ?B"] obtain Xr where
    Xr: "draw_rows g fd lcd_fillPage (i + 1) ts ((tr @ Xt) @ ?B) = Some (((tr @ Xt) @ ?B) @ Xr)"
    and early: "\<And>cur px q d. q < unat (i + 1) \<Longrightarrow> snd (fold port_step Xr (cur, px)) (q, d) = px (q, d)"
    and later: "\<And>cur px q d. unat (i + 1) \<le> q \<Longrightarrow> q < unat (i + 1) + length ts
        \<Longrightarrow> unat (fst (fd 0 (of_nat q) (Cols g) (ts ! (q - unat (i + 1))) [])) \<le> d
        \<Longrightarrow> d < unat (Cols g) \<Longrightarrow> snd (fold port_step Xr (cur, px)) (q, d) = 0"
    by blast
  have run: "draw_rows g fd lcd_fillPage i (t # ts) tr = Some (tr @ (Xt @ ?B @ Xr))"
    using d fl Xr by simp
  have px_all: "(q < unat i \<longrightarrow> snd (fold port_step (Xt @ ?B @ Xr) (cur, px)) (q, d) = px (q, d))
      \<and> (unat i \<le> q \<and> q < unat i + length (t # ts)
            \<and> unat (fst (fd 0 (of_nat q) (Cols g) ((t # ts) ! (q - unat i)) [])) \<le> d
            \<and> d < unat (Cols g)
           \<longrightarrow> snd (fold port_step (Xt @ ?B @ Xr) (cur, px)) (q, d) = 0)" for cur px q d
  proof -
    obtain cur1 px1 where st: "fold port_step Xt (cur, px) = (cur1, px1)"
      by (cases "fold port_step Xt (cur, px)")
    have px1: "px1 (q', d') = px (q', d')" if "q' \<noteq> unat i" for q' d'
      using po that st unfolding paints_only_def by (metis snd_conv)
    let ?px2 = "paint ?w i (replicate ?n 0) px1"
    have whole: "fold port_step (Xt @ ?B @ Xr) (cur, px) = fold port_step Xr (None, ?px2)"
      by (simp add: st fold_block)
    show ?thesis
    proof (intro conjI impI)
      assume q: "q < unat i"
      then have "snd (fold port_step Xr (None, ?px2)) (q, d) = ?px2 (q, d)"
        using early[of q None ?px2 d] u by simp
      also have "\<dots> = px1 (q, d)" using q by (simp add: paint_def)
      also have "\<dots> = px (q, d)" using q px1 by simp
      finally show "snd (fold port_step (Xt @ ?B @ Xr) (cur, px)) (q, d) = px (q, d)"
        by (simp only: whole)
    next
      assume a: "unat i \<le> q \<and> q < unat i + length (t # ts)
            \<and> unat (fst (fd 0 (of_nat q) (Cols g) ((t # ts) ! (q - unat i)) [])) \<le> d
            \<and> d < unat (Cols g)"
      show "snd (fold port_step (Xt @ ?B @ Xr) (cur, px)) (q, d) = 0"
      proof (cases "q = unat i")
        case True
        with a have wd: "unat ?w \<le> d" "d < unat (Cols g)" by simp_all
        have "snd (fold port_step Xr (None, ?px2)) (q, d) = ?px2 (q, d)"
          using early[of q None ?px2 d] u True by simp
        also have "\<dots> = 0" using True wd n by (simp add: paint_def)
        finally show ?thesis by (simp only: whole)
      next
        case False
        with a have q1: "unat (i + 1) \<le> q" "q < unat (i + 1) + length ts" using u by simp_all
        have "(t # ts) ! (q - unat i) = ts ! (q - unat (i + 1))"
          using q1 u by (simp add: nth_Cons')
        with a have "unat (fst (fd 0 (of_nat q) (Cols g) (ts ! (q - unat (i + 1))) [])) \<le> d"
          by simp
        from later[OF q1 this, of None ?px2] a show ?thesis by (simp only: whole)
      qed
    qed
  qed
  from run px_all show ?case by blast
qed

lemma draw_as_rows:
  assumes "valid_lcd g" "console_inv g s" "dirty s"
  shows "draw g fd fill s tr
         = map_option (\<lambda>tr'. Inr (s\<lparr>dirty := False\<rparr>, tr'))
             (draw_rows g fd fill 0
                (map (\<lambda>k. c_str (buffer s ! nat (sint (row_index g s (of_nat k)))))
                   [0..<unat (Pages g)]) tr)"
proof -
  let ?s = "s\<lparr>dirty := False\<rparr>"
  let ?ts = "map (\<lambda>k. c_str (buffer s ! nat (sint (row_index g s (of_nat k))))) [0..<unat (Pages g)]"
  have same: "row_index g ?s i = row_index g s i" for i by (simp add: row_index_def)
  have inv': "console_inv g ?s" using assms(2) by (simp add: inv_dirty)
  have a: "\<forall>i. i < Pages g \<longrightarrow> 0 \<le> sint (row_index g ?s i) \<and> sint (row_index g ?s i) < uint (Pages g)"
    using row_index_value[OF assms(1) inv'] by blast
  have b: "\<forall>i. i < Pages g \<longrightarrow> c_str (buffer ?s ! nat (sint (row_index g ?s i))) = ?ts ! unat i"
    by (simp add: same word_less_nat_alt)
  have "draw_loop g fd fill ?s 0 tr = map_option Inr (draw_rows g fd fill 0 (drop (unat (0::8 word)) ?ts) tr)"
    using a b by (rule draw_loop_rows) simp_all
  then show ?thesis using assms(3)
    by (cases "draw_rows g fd fill 0 ?ts tr") (simp_all add: draw_def)
qed

lemma draw_pixels:
  assumes "valid_lcd g" "console_inv g s" "in_place fd" "dirty s"
  shows "\<exists>tr'. draw g fd lcd_fillPage s tr = Some (Inr (s\<lparr>dirty := False\<rparr>, tr'))
     \<and> (\<forall>i c. i < Pages g \<longrightarrow> unat (drawn_width g fd s i) \<le> c \<longrightarrow> c < unat (Cols g)
            \<longrightarrow> display_after tr' px0 (unat i, c) = 0)"
proof -
  let ?P = "unat (Pages g)"
  let ?ts = "map (\<lambda>k. c_str (buffer s ! nat (sint (row_index g s (of_nat k))))) [0..<?P]"
  have "?P \<le> 255" by (rule u8_bound)
  then have "unat (0::8 word) + length ?ts \<le> 255" by simp
  from draw_rows_pixels[OF assms(3) this, of g tr] obtain X where
    X: "draw_rows g fd lcd_fillPage 0 ?ts tr = Some (tr @ X)"
    and blank: "\<And>cur px q d. unat (0::8 word) \<le> q \<Longrightarrow> q < unat (0::8 word) + length ?ts
        \<Longrightarrow> unat (fst (fd 0 (of_nat q) (Cols g) (?ts ! (q - unat (0::8 word))) [])) \<le> d
        \<Longrightarrow> d < unat (Cols g) \<Longrightarrow> snd (fold port_step X (cur, px)) (q, d) = 0"
    by blast
  have dr: "draw g fd lcd_fillPage s tr = Some (Inr (s\<lparr>dirty := False\<rparr>, tr @ X))"
    using draw_as_rows[OF assms(1,2,4), of fd lcd_fillPage tr] X by simp
  have "display_after (tr @ X) px0 (unat i, c) = 0"
    if i: "i < Pages g" and w: "unat (drawn_width g fd s i) \<le> c" and c: "c < unat (Cols g)" for i c
  proof -
    obtain cur px where st: "fold port_step tr (None, px0) = (cur, px)"
      by (cases "fold port_step tr (None, px0)")
    have ui: "unat i < ?P" using i by (simp add: word_less_nat_alt)
    have "?ts ! unat i = c_str (buffer s ! nat (sint (row_index g s i)))" using ui by simp
    then have "fst (fd 0 (of_nat (unat i)) (Cols g) (?ts ! (unat i - unat (0::8 word))) [])
        = drawn_width g fd s i" by (simp add: drawn_width_def drawText_def)
    with w have "unat (fst (fd 0 (of_nat (unat i)) (Cols g) (?ts ! (unat i - unat (0::8 word))) [])) \<le> c"
      by simp
    from blank[OF _ _ this c, of cur px] ui
    have "snd (fold port_step X (cur, px)) (unat i, c) = 0" by simp
    then show ?thesis by (simp add: display_after_def st)
  qed
  with dr show ?thesis by blast
qed

text \<open>
  C1. The fill of the display class is the one the spec describes, and the font renderer
  draws in place. In a console state that satisfies the invariant, \<open>draw\<close> with the dirty flag
  set returns, and afterwards every column of page \<open>i\<close> from the pixel width \<open>w\<close> that the text
  of row \<open>i\<close> consumed up to \<open>Cols\<close> is blank (the byte 0), whatever the display showed before:
  no pixel of a longer line remains. Consequently, from any such state, \<open>clear\<close> followed by
  \<open>draw\<close> leaves every column of every page blank (the empty text having width 0).
\<close>

theorem draw_blanks_rest_of_page:
  assumes "valid_lcd g" and "console_inv g s" and "in_place fd"
  shows "(dirty s \<longrightarrow>
            (\<exists>tr'. draw g fd lcd_fillPage s tr = Some (Inr (s\<lparr>dirty := False\<rparr>, tr'))
               \<and> (\<forall>i c. i < Pages g \<longrightarrow> unat (drawn_width g fd s i) \<le> c \<longrightarrow> c < unat (Cols g)
                      \<longrightarrow> display_after tr' px0 (unat i, c) = 0)))
       \<and> ((\<forall>c p m. fst (fd c p m [] []) = 0) \<longrightarrow>
            (\<exists>s1 tr'. clear g s = Inr s1
               \<and> draw g fd lcd_fillPage s1 tr = Some (Inr (s1\<lparr>dirty := False\<rparr>, tr'))
               \<and> (\<forall>p c. p < unat (Pages g) \<longrightarrow> c < unat (Cols g)
                      \<longrightarrow> display_after tr' px0 (p, c) = 0)))"
proof (intro conjI impI)
  assume "dirty s"
  with assms show "\<exists>tr'. draw g fd lcd_fillPage s tr = Some (Inr (s\<lparr>dirty := False\<rparr>, tr'))
               \<and> (\<forall>i c. i < Pages g \<longrightarrow> unat (drawn_width g fd s i) \<le> c \<longrightarrow> c < unat (Cols g)
                      \<longrightarrow> display_after tr' px0 (unat i, c) = 0)"
    by (rule draw_pixels)
next
  assume empty: "\<forall>c p m. fst (fd c p m [] []) = 0"
  from clear_inv[OF assms(1,2)] obtain s1 where c: "clear g s = Inr s1"
    and inv1: "console_inv g s1" and d1: "dirty s1"
    and rows: "\<forall>k < unat (Pages g). c_str (buffer s1 ! k) = []" by blast
  from draw_pixels[OF assms(1) inv1 assms(3) d1, of tr px0] obtain tr' where
    dr: "draw g fd lcd_fillPage s1 tr = Some (Inr (s1\<lparr>dirty := False\<rparr>, tr'))"
    and blank: "\<And>i c. i < Pages g \<Longrightarrow> unat (drawn_width g fd s1 i) \<le> c \<Longrightarrow> c < unat (Cols g)
            \<Longrightarrow> display_after tr' px0 (unat i, c) = 0" by blast
  have "display_after tr' px0 (p, c) = 0" if p: "p < unat (Pages g)" and cc: "c < unat (Cols g)" for p c
  proof -
    let ?i = "of_nat p :: 8 word"
    have "unat (Pages g) \<le> 255" by (rule u8_bound)
    with p have up: "unat ?i = p" by (simp add: unat_of_nat)
    with p have i: "?i < Pages g" by (simp add: word_less_nat_alt)
    from row_index_value(2,3)[OF assms(1) inv1 i]
    have "nat (sint (row_index g s1 ?i)) < unat (Pages g)"
      unfolding uint_nat by linarith
    with rows have "c_str (buffer s1 ! nat (sint (row_index g s1 ?i))) = []" by simp
    then have "drawn_width g fd s1 ?i = 0" using empty by (simp add: drawn_width_def drawText_def)
    then have "unat (drawn_width g fd s1 ?i) \<le> c" by simp
    from blank[OF i this cc] up show ?thesis by simp
  qed
  with c dr show "\<exists>s1 tr'. clear g s = Inr s1
               \<and> draw g fd lcd_fillPage s1 tr = Some (Inr (s1\<lparr>dirty := False\<rparr>, tr'))
               \<and> (\<forall>p c. p < unat (Pages g) \<longrightarrow> c < unat (Cols g)
                      \<longrightarrow> display_after tr' px0 (p, c) = 0)" by blast
qed

text \<open>
  The example: 32 characters are written and drawn, which lights column 127 of page 0; the
  console is cleared, \<open>ab\<close> is written (8 columns wide) and drawn; then the columns 8 and 127
  of page 0 are blank.
\<close>

lemma lcd128_valid: "valid_lcd lcd128"
  by code_simp

lemma sim_after_32: "sim lcd128 (log_all lcd128 font3 (replicate 32 97) log_init) after_32"
proof -
  from sim_all[OF lcd128_valid sim_init[OF lcd128_valid], of font3 "replicate 32 97"]
  show ?thesis by (auto simp: after_32_def)
qed

lemma width4_32: "width4 (replicate 32 97) = 128"
  by code_simp

lemma draw_rows_32:
  "draw_rows lcd128 draw4 lcd_fillPage 0 [replicate 32 97, [], [], [], [], [], [], []] tr
   = Some (tr @ block 0 0 (replicate 128 255) @ block 128 0 []
      @ block 0 1 [] @ block 0 1 (replicate 128 0) @ block 0 2 [] @ block 0 2 (replicate 128 0)
      @ block 0 3 [] @ block 0 3 (replicate 128 0) @ block 0 4 [] @ block 0 4 (replicate 128 0)
      @ block 0 5 [] @ block 0 5 (replicate 128 0) @ block 0 6 [] @ block 0 6 (replicate 128 0)
      @ block 0 7 [] @ block 0 7 (replicate 128 0))"
  by (simp add: drawText_def draw4_def Let_def lcd_fillPage_def lcd128_def width4_32)

lemma longer_line_lit: "display_after trace_32 (\<lambda>x. 0) (0, 127) = 255"
proof -
  have d32: "dirty after_32" by code_simp
  have n32: "newest (unat (Pages lcd128)) (texts (log_all lcd128 font3 (replicate 32 97) log_init))
      = [replicate 32 97, [], [], [], [], [], [], []]" by code_simp
  have "draw lcd128 draw4 lcd_fillPage after_32 []
      = map_option (\<lambda>tr'. Inr (after_32\<lparr>dirty := False\<rparr>, tr'))
          (draw_rows lcd128 draw4 lcd_fillPage 0 [replicate 32 97, [], [], [], [], [], [], []] [])"
    using draw_by_log[OF lcd128_valid sim_after_32 d32, of draw4 lcd_fillPage "[]"] unfolding n32 .
  then have "draw lcd128 draw4 lcd_fillPage after_32 []
      = Some (Inr (drew_32, [] @ block 0 0 (replicate 128 255) @ block 128 0 []
      @ block 0 1 [] @ block 0 1 (replicate 128 0) @ block 0 2 [] @ block 0 2 (replicate 128 0)
      @ block 0 3 [] @ block 0 3 (replicate 128 0) @ block 0 4 [] @ block 0 4 (replicate 128 0)
      @ block 0 5 [] @ block 0 5 (replicate 128 0) @ block 0 6 [] @ block 0 6 (replicate 128 0)
      @ block 0 7 [] @ block 0 7 (replicate 128 0)))"
    unfolding draw_rows_32 drew_32_def by simp
  then have t32: "trace_32 = block 0 0 (replicate 128 255) @ block 128 0 []
      @ block 0 1 [] @ block 0 1 (replicate 128 0) @ block 0 2 [] @ block 0 2 (replicate 128 0)
      @ block 0 3 [] @ block 0 3 (replicate 128 0) @ block 0 4 [] @ block 0 4 (replicate 128 0)
      @ block 0 5 [] @ block 0 5 (replicate 128 0) @ block 0 6 [] @ block 0 6 (replicate 128 0)
      @ block 0 7 [] @ block 0 7 (replicate 128 0)"
    by (simp add: trace_32_def)
  show ?thesis
    by (simp add: t32 display_after_block display_after_last paint_def)
qed

theorem draw_blanks_rest_of_page_witness:
  "valid_lcd lcd128 \<and> console_inv lcd128 wrote_ab \<and> in_place draw4 \<and> dirty wrote_ab
   \<and> display_after trace_32 (\<lambda>x. 0) (0, 127) = 255
   \<and> drawn_width lcd128 draw4 wrote_ab 0 = 8
   \<and> draw lcd128 draw4 lcd_fillPage wrote_ab trace_32
       = Some (Inr (wrote_ab\<lparr>dirty := False\<rparr>, trace_ab))
   \<and> display_after trace_ab (\<lambda>x. 0) (0, 8) = 0
   \<and> display_after trace_ab (\<lambda>x. 0) (0, 127) = 0"
proof -
  note v = lcd128_valid
  have inv: "console_inv lcd128 wrote_ab" by code_simp
  have d: "dirty wrote_ab" by code_simp
  have w: "drawn_width lcd128 draw4 wrote_ab 0 = 8" by code_simp
  have c: "unat (Cols lcd128) = 128" "(0::8 word) < Pages lcd128" by (simp_all add: lcd128_def)
  from draw_blanks_rest_of_page[OF v inv draw4_in_place, of trace_32 "\<lambda>x. 0"] d
  obtain tr' where dr: "draw lcd128 draw4 lcd_fillPage wrote_ab trace_32
       = Some (Inr (wrote_ab\<lparr>dirty := False\<rparr>, tr'))"
    and blank: "\<And>i c. i < Pages lcd128 \<Longrightarrow> unat (drawn_width lcd128 draw4 wrote_ab i) \<le> c
        \<Longrightarrow> c < unat (Cols lcd128) \<Longrightarrow> display_after tr' (\<lambda>x. 0) (unat i, c) = 0"
    by blast
  from dr have t: "trace_ab = tr'" by (simp add: trace_ab_def)
  have p8: "display_after trace_ab (\<lambda>x. 0) (0, 8) = 0"
    using blank[of 0 8] w c by (simp add: t)
  have p127: "display_after trace_ab (\<lambda>x. 0) (0, 127) = 0"
    using blank[of 0 127] w c by (simp add: t)
  from v inv draw4_in_place d longer_line_lit w dr p8 p127 show ?thesis
    by (simp add: t)
qed

end
